theory Spec2Isabelle
  imports Main "HOL-Library.Char_ord" "HOL-Library.List_Lexorder"
begin

section \<open>Errors\<close>

text \<open>
  Every exception the modelled functions raise is a value of \<open>error\<close>; a function that can
  raise returns \<open>error + 'a\<close> with \<open>Inl\<close> for the exception.
  \<^item> \<open>MissingDependency\<close>: the \<open>ValueError\<close> of \<open>add_node\<close> (dag.py, line 44);
  \<^item> \<open>NotADAG\<close>: the \<open>NetworkXError\<close> of \<open>compile_graph\<close> (dag.py, line 132);
  \<^item> \<open>UnpackError\<close>: the \<open>ValueError\<close> of the tuple unpacking
    \<open>module, imported = line.split(" import ")\<close> (dag.py, line 66);
  \<^item> \<open>IndexError\<close>, \<open>KeyError\<close>: a list index out of range, a key a dict does not have;
  \<^item> \<open>GraphChanged\<close>, \<open>Unfeasible\<close>: the \<open>RuntimeError\<close> and the
    \<open>NetworkXUnfeasible\<close> of networkx's topological sort;
  \<^item> \<open>RecursionLimitExceeded\<close>: the \<open>ValueError\<close> of \<open>recursive_create_function\<close>
    (agent.py, line 74);
  \<^item> \<open>ParamTypeInvalid\<close>: the \<open>ValueError\<close> of \<open>check_param_type\<close>
    (gen_branching_graph.py, line 51);
  \<^item> \<open>UnparsableSource\<close>: whatever \<open>isort.code\<close> or \<open>black.format_str\<close> raise on a
    source they cannot parse;
  \<^item> \<open>OracleOutputInvalid\<close>: a failure of the generation oracle.
\<close>

datatype error =
    MissingDependency
  | NotADAG
  | UnpackError
  | IndexError
  | KeyError
  | GraphChanged
  | Unfeasible
  | RecursionLimitExceeded
  | ParamTypeInvalid
  | UnparsableSource
  | OracleOutputInvalid

section \<open>Python string operations\<close>

text \<open>
  A Python \<open>str\<close> is modelled as a \<open>string\<close> whose characters are the code points below
  256. The operations are the ones the source calls; \<open>split\<close> and \<open>replace\<close> are only
  ever called with a non-empty separator.
\<close>

definition startswith :: "string \<Rightarrow> string \<Rightarrow> bool" where
  "startswith s p = (take (length p) s = p)"

fun join :: "string \<Rightarrow> string list \<Rightarrow> string" where
  "join sep [] = []"
| "join sep [x] = x"
| "join sep (x # y # ys) = x @ sep @ join sep (y # ys)"

text \<open>
  \<open>s.split(sep)\<close>: \<open>cur\<close> is the piece being read. The occurrences of \<open>sep\<close> are found
  from the left and do not overlap. (An empty \<open>sep\<close> raises in Python; here it splits
  nothing.)
\<close>

function split_from :: "string \<Rightarrow> string \<Rightarrow> string \<Rightarrow> string list" where
  "split_from sep cur [] = [cur]"
| "split_from sep cur (c # cs) =
     (if sep \<noteq> [] \<and> startswith (c # cs) sep
      then cur # split_from sep [] (drop (length sep) (c # cs))
      else split_from sep (cur @ [c]) cs)"
  by pat_completeness auto
termination
  by (relation "measure (\<lambda>(sep, cur, s). length s)") auto

definition split :: "string \<Rightarrow> string \<Rightarrow> string list" where
  "split sep s = split_from sep [] s"

text \<open>\<open>s.replace(old, new)\<close> for a non-empty \<open>old\<close>.\<close>

function replace :: "string \<Rightarrow> string \<Rightarrow> string \<Rightarrow> string" where
  "replace old new [] = []"
| "replace old new (c # cs) =
     (if old \<noteq> [] \<and> startswith (c # cs) old
      then new @ replace old new (drop (length old) (c # cs))
      else c # replace old new cs)"
  by pat_completeness auto
termination
  by (relation "measure (\<lambda>(old, new, s). length s)") auto

text \<open>
  \<open>str.isspace\<close> on the code points below 256: tab, line feed, vertical tab, form feed,
  carriage return, the separators 28 to 31, space, next line (133) and the no-break
  space (160).
\<close>

definition isspace :: "char \<Rightarrow> bool" where
  "isspace c = (of_char c \<in> set [9, 10, 11, 12, 13, 28, 29, 30, 31, 32, 133, 160 :: nat])"

definition strip :: "string \<Rightarrow> string" where
  "strip s = rev (dropWhile isspace (rev (dropWhile isspace s)))"

definition rstrip :: "string \<Rightarrow> string \<Rightarrow> string" where
  "rstrip s chars = rev (dropWhile (\<lambda>c. c \<in> set chars) (rev s))"

text \<open>
  \<open>str.lower\<close> on the code points below 256: the letters A to Z, and the Latin-1 capitals
  192 to 222 except the multiplication sign 215, move up by 32.
\<close>

definition lower_char :: "char \<Rightarrow> char" where
  "lower_char c =
     (let n = (of_char c :: nat)
      in if (65 \<le> n \<and> n \<le> 90) \<or> (192 \<le> n \<and> n \<le> 222 \<and> n \<noteq> 215)
         then char_of (n + 32) else c)"

definition lower :: "string \<Rightarrow> string" where
  "lower s = map lower_char s"

text \<open>\<open>sub in s\<close> for strings: \<open>sub\<close> occurs in \<open>s\<close> as a substring.\<close>

fun contains :: "string \<Rightarrow> string \<Rightarrow> bool" where
  "contains [] sub = (sub = [])"
| "contains (c # cs) sub = (startswith (c # cs) sub \<or> contains cs sub)"

section \<open>Parameter type validation (gen\_branching\_graph.py)\<close>

definition basic_types :: "string list" where
  "basic_types =
     [''bool'', ''int'', ''float'', ''complex'', ''str'', ''bytes'',
      ''tuple'', ''list'', ''dict'', ''set'', ''frozenset'']"

text \<open>
  \<open>Param.check_param_type\<close>: returns the tag when it is accepted. \<open>v.split("[")[1]\<close>
  is the second piece of the split; the guard before it makes sure there is one.
\<close>

definition check_param_type :: "string \<Rightarrow> error + string" where
  "check_param_type v =
     (if v \<in> set basic_types then Inr v
      else if (startswith v ''list['' \<or> startswith v ''set['' \<or> startswith v ''tuple['')
              \<and> (case split ''['' v of
                    _ # piece # _ \<Rightarrow> rstrip piece '']'' \<in> set basic_types
                  | _ \<Rightarrow> False)
      then Inr v
      else Inl ParamTypeInvalid)"

section \<open>Requirement manifest (dag.py)\<close>

record RequiredPackage =
  package_name :: string
  version :: "string option"
  specifier :: "string option"

text \<open>
  \<open>resolved_packages\<close> is a \<open>defaultdict(list)\<close>: an association list in insertion
  order. \<open>append_resolved\<close> is \<open>resolved_packages[k].append(v)\<close>: a new key goes to the
  end with the one-element list, an old key keeps its place.
\<close>

type_synonym version_specifier = "string option \<times> string option"

fun append_resolved ::
  "(string \<times> version_specifier list) list \<Rightarrow> string \<Rightarrow> version_specifier
   \<Rightarrow> (string \<times> version_specifier list) list" where
  "append_resolved [] k v = [(k, [v])]"
| "append_resolved ((k', vs) # r) k v =
     (if k' = k then (k', vs @ [v]) # r else (k', vs) # append_resolved r k v)"

fun aggregate ::
  "(string \<times> version_specifier list) list \<Rightarrow> RequiredPackage list
   \<Rightarrow> (string \<times> version_specifier list) list" where
  "aggregate r [] = r"
| "aggregate r (p # ps) =
     aggregate (append_resolved r (package_name p) (version p, specifier p)) ps"

text \<open>Truthiness of an optional string: \<open>None\<close> and the empty string are false.\<close>

fun truthy :: "string option \<Rightarrow> bool" where
  "truthy None = False"
| "truthy (Some s) = (s \<noteq> [])"

fun text_of :: "string option \<Rightarrow> string" where
  "text_of None = ''None''"
| "text_of (Some s) = s"

definition requirement :: "string \<Rightarrow> version_specifier \<Rightarrow> string" where
  "requirement package vs =
     (case vs of (version', specifier') \<Rightarrow>
        if truthy version' \<and> truthy specifier'
        then package @ text_of specifier' @ text_of version'
        else if truthy version' then package @ ''=='' @ text_of version'
        else package)"

text \<open>The second loop: \<open>versions_specifiers[0]\<close> raises on an empty list.\<close>

fun requirements_of :: "(string \<times> version_specifier list) list \<Rightarrow> error + string list" where
  "requirements_of [] = Inr []"
| "requirements_of ((package, versions_specifiers) # r) =
     (case versions_specifiers of
        [] \<Rightarrow> Inl IndexError
      | first # _ \<Rightarrow>
          (case requirements_of r of
             Inl e \<Rightarrow> Inl e
           | Inr reqs \<Rightarrow> Inr (requirement package first # reqs)))"

definition generate_requirements_txt :: "RequiredPackage list \<Rightarrow> error + string" where
  "generate_requirements_txt packages =
     (case requirements_of (aggregate [] packages) of
        Inl e \<Rightarrow> Inl e
      | Inr requirements \<Rightarrow> Inr (join [CHR 0x0A] requirements))"

text \<open>
  What the manifest should hold, in the words of the specification: the distinct package
  names in the order they are first seen, and for each name the pair of its first
  package.
\<close>

fun first_seen_names :: "string list \<Rightarrow> string list" where
  "first_seen_names [] = []"
| "first_seen_names (n # ns) = n # filter (\<lambda>m. m \<noteq> n) (first_seen_names ns)"

definition first_seen_pair :: "RequiredPackage list \<Rightarrow> string \<Rightarrow> version_specifier" where
  "first_seen_pair packages n =
     (case find (\<lambda>p. package_name p = n) packages of
        Some p \<Rightarrow> (version p, specifier p)
      | None \<Rightarrow> (None, None))"

section \<open>Dicts in insertion order\<close>

text \<open>
  A Python dict keeps its keys in the order they were first inserted. \<open>dict_set\<close> is
  \<open>d[k] = v\<close>: an old key keeps its place and gets the new value, a new key goes to
  the end. \<open>dict_del\<close> is \<open>del d[k]\<close> for a key that is there.
\<close>

fun dict_set :: "('k \<times> 'v) list \<Rightarrow> 'k \<Rightarrow> 'v \<Rightarrow> ('k \<times> 'v) list" where
  "dict_set [] k v = [(k, v)]"
| "dict_set ((k', v') # d) k v = (if k' = k then (k, v) # d else (k', v') # dict_set d k v)"

definition dict_del :: "('k \<times> 'v) list \<Rightarrow> 'k \<Rightarrow> ('k \<times> 'v) list" where
  "dict_del d k = filter (\<lambda>kv. fst kv \<noteq> k) d"

definition keys :: "('k \<times> 'v) list \<Rightarrow> 'k list" where
  "keys d = map fst d"

text \<open>\<open>{**a, **b}\<close>: the entries of \<open>b\<close> are stored into \<open>a\<close>, one after the other.\<close>

fun dict_merge :: "('k \<times> 'v) list \<Rightarrow> ('k \<times> 'v) list \<Rightarrow> ('k \<times> 'v) list" where
  "dict_merge a [] = a"
| "dict_merge a ((k, v) # b) = dict_merge (dict_set a k v) b"

section \<open>Nodes and the dependency graph (dag.py)\<close>

record Param =
  param_type :: string
  name :: string
  description :: string

text \<open>
  The fields of \<open>Node\<close> that dag.py reads. \<open>input_params\<close> and \<open>output_params\<close> may be
  absent (\<open>None\<close>).
\<close>

record Node =
  name :: string
  input_params :: "Param list option"
  output_params :: "Param list option"
  code :: string
  required_packages :: "RequiredPackage list"

text \<open>
  A \<open>Node\<close> is a Python object: a graph holds references to nodes, and
  \<open>compile_graph\<close> writes to the \<open>name\<close> of an object it finds in the graph. The
  objects live in a store, a function from references to their current values; two
  vertices may hold the same reference.
\<close>

type_synonym ref = nat

type_synonym store = "ref \<Rightarrow> Node"

text \<open>
  A networkx \<open>DiGraph\<close> as dag.py uses it: the vertices in insertion order, each with
  its \<open>node\<close> attribute (a reference), and the edges in insertion order, each with its
  \<open>connection_type\<close> attribute. \<open>graph_add_node\<close> and \<open>graph_add_edge\<close> are
  \<open>graph.add_node(n, node=nd)\<close> and \<open>graph.add_edge(u, v, connection_type=c)\<close>: on a
  vertex or an edge that is already there they replace the attribute. (dag.py only adds
  edges between vertices of the graph, so \<open>graph_add_edge\<close> has no vertex to create.)
\<close>

record DiGraph =
  nodes :: "(string \<times> ref) list"
  edges :: "((string \<times> string) \<times> string) list"

definition graph_add_node :: "DiGraph \<Rightarrow> string \<Rightarrow> ref \<Rightarrow> DiGraph" where
  "graph_add_node graph n nd = graph\<lparr>nodes := dict_set (nodes graph) n nd\<rparr>"

definition graph_add_edge :: "DiGraph \<Rightarrow> string \<Rightarrow> string \<Rightarrow> string \<Rightarrow> DiGraph" where
  "graph_add_edge graph u v c = graph\<lparr>edges := dict_set (edges graph) (u, v) c\<rparr>"

text \<open>The f-string \<open>f"{p.name}: {p.param_type}"\<close>.\<close>

definition param_key :: "Param \<Rightarrow> string" where
  "param_key p = Param.name p @ '': '' @ param_type p"

text \<open>
  \<open>input_params_needed\<close>: the list of the keys of the declared inputs, or the empty dict
  when \<open>input_params\<close> is \<open>None\<close> or empty. Only its length and membership in it are
  used, so the empty dict is the empty list here.
\<close>

definition input_params_needed :: "Node \<Rightarrow> string list" where
  "input_params_needed node =
     (case input_params node of
        None \<Rightarrow> []
      | Some ps \<Rightarrow> if ps \<noteq> [] then map param_key ps else [])"

text \<open>
  The scan for providers: the outer loop runs over the vertices in insertion order, the
  inner one over the declared outputs of the node of a vertex, read from the store; a
  later provider of a key overwrites an earlier one.
\<close>

fun scan_outputs ::
  "string list \<Rightarrow> string \<Rightarrow> (string \<times> string) list \<Rightarrow> Param list \<Rightarrow> (string \<times> string) list" where
  "scan_outputs needed n providers [] = providers"
| "scan_outputs needed n providers (output_param # rest) =
     scan_outputs needed n
       (if param_key output_param \<in> set needed
        then dict_set providers (param_key output_param) n else providers)
       rest"

fun scan_nodes ::
  "store \<Rightarrow> string list \<Rightarrow> (string \<times> string) list \<Rightarrow> (string \<times> ref) list
   \<Rightarrow> (string \<times> string) list" where
  "scan_nodes s needed providers [] = providers"
| "scan_nodes s needed providers ((n, existing_node) # rest) =
     scan_nodes s needed
       (case output_params (s existing_node) of
          None \<Rightarrow> providers
        | Some outs \<Rightarrow> scan_outputs needed n providers outs)
       rest"

text \<open>
  The last loop of \<open>add_node\<close>: one edge per entry of \<open>providers\<close>, labelled
  \<open>param_key[0]\<close>, the first character of the key (a key is never empty).
\<close>

fun connect :: "DiGraph \<Rightarrow> string \<Rightarrow> (string \<times> string) list \<Rightarrow> DiGraph" where
  "connect graph node_name [] = graph"
| "connect graph node_name ((key, provider_node) # rest) =
     connect (graph_add_edge graph provider_node node_name (take 1 key)) node_name rest"

text \<open>
  \<open>add_node\<close> changes the graph in place, so the model returns the graph as the call
  leaves it beside the outcome: the value \<open>True\<close>, or the exception raised. It reads
  the objects and writes to none: the store \<open>s\<close> is the same after the call.
\<close>

definition add_node :: "store \<Rightarrow> DiGraph \<Rightarrow> string \<Rightarrow> ref \<Rightarrow> (error + bool) \<times> DiGraph" where
  "add_node s graph node_name node =
     (if length (nodes graph) = 0 then (Inr True, graph_add_node graph node_name node)
      else
        let needed = input_params_needed (s node);
            providers = scan_nodes s needed [] (nodes graph)
        in if length needed \<noteq> length providers then (Inl MissingDependency, graph)
           else (Inr True, connect (graph_add_node graph node_name node) node_name providers))"

text \<open>
  The keys some vertex of the graph produces, the edges as a relation, and the graphs
  networkx can hold: no vertex and no edge twice, every edge between two vertices.
\<close>

definition provided_keys :: "store \<Rightarrow> DiGraph \<Rightarrow> string set" where
  "provided_keys s graph =
     {param_key q | q n r outs.
        (n, r) \<in> set (nodes graph) \<and> output_params (s r) = Some outs \<and> q \<in> set outs}"

definition edge_rel :: "DiGraph \<Rightarrow> (string \<times> string) set" where
  "edge_rel graph = set (keys (edges graph))"

definition well_formed :: "DiGraph \<Rightarrow> bool" where
  "well_formed graph =
     (distinct (keys (nodes graph)) \<and> distinct (keys (edges graph)) \<and>
      (\<forall>e \<in> set (keys (edges graph)).
         fst e \<in> set (keys (nodes graph)) \<and> snd e \<in> set (keys (nodes graph))))"

definition contains_cycle :: "DiGraph \<Rightarrow> bool" where
  "contains_cycle graph = (\<exists>v. (v, v) \<in> (edge_rel graph)\<^sup>+)"

definition predecessors :: "DiGraph \<Rightarrow> string \<Rightarrow> string list" where
  "predecessors graph v = map fst (filter (\<lambda>e. snd e = v) (keys (edges graph)))"

definition neighbors :: "DiGraph \<Rightarrow> string \<Rightarrow> string list" where
  "neighbors graph u = map snd (filter (\<lambda>e. fst e = u) (keys (edges graph)))"

section \<open>Topological sort (networkx)\<close>

text \<open>
  \<open>nx.topological_sort\<close> and \<open>nx.is_directed_acyclic_graph\<close> as networkx 3 computes
  them: Kahn's algorithm, one generation of vertices without unprocessed predecessors
  after the other. \<open>indegree_map\<close> is a dict from a vertex to the number of its
  incoming edges not yet processed; a vertex whose count reaches zero leaves the dict
  and joins the next generation.
\<close>

definition in_degree :: "DiGraph \<Rightarrow> string \<Rightarrow> int" where
  "in_degree graph v = int (length (predecessors graph v))"

definition indegree_map :: "DiGraph \<Rightarrow> (string \<times> int) list" where
  "indegree_map graph =
     map (\<lambda>v. (v, in_degree graph v))
       (filter (\<lambda>v. in_degree graph v > 0) (keys (nodes graph)))"

definition zero_indegree :: "DiGraph \<Rightarrow> string list" where
  "zero_indegree graph = filter (\<lambda>v. in_degree graph v = 0) (keys (nodes graph))"

text \<open>The inner loop: \<open>for child in G.neighbors(node)\<close>.\<close>

fun relax_children ::
  "(string \<times> int) list \<times> string list \<Rightarrow> string list
   \<Rightarrow> error + (string \<times> int) list \<times> string list" where
  "relax_children st [] = Inr st"
| "relax_children (m, zero) (child # rest) =
     (case map_of m child of
        None \<Rightarrow> Inl GraphChanged
      | Some d \<Rightarrow>
          if d - 1 = 0 then relax_children (dict_del m child, zero @ [child]) rest
          else relax_children (dict_set m child (d - 1), zero) rest)"

text \<open>The loop over one generation: \<open>for node in this_generation\<close>.\<close>

fun process_generation ::
  "DiGraph \<Rightarrow> (string \<times> int) list \<times> string list \<Rightarrow> string list
   \<Rightarrow> error + (string \<times> int) list \<times> string list" where
  "process_generation graph st [] = Inr st"
| "process_generation graph st (node # rest) =
     (if node \<notin> set (keys (nodes graph)) then Inl GraphChanged
      else case relax_children st (neighbors graph node) of
             Inl e \<Rightarrow> Inl e
           | Inr st' \<Rightarrow> process_generation graph st' rest)"

text \<open>
  The generations: \<open>while zero_indegree\<close>, and after the loop the check that no vertex
  is left with unprocessed incoming edges. Every round takes as many vertices out of
  \<open>indegree_map\<close> as it puts into the next generation, which is why the loop ends.
\<close>

function topological_generations ::
  "DiGraph \<Rightarrow> (string \<times> int) list \<Rightarrow> string list \<Rightarrow> error + string list list" where
  "topological_generations graph m zero =
     (if zero = [] then (if m \<noteq> [] then Inl Unfeasible else Inr [])
      else case process_generation graph (m, []) zero of
             Inl e \<Rightarrow> Inl e
           | Inr (m', zero') \<Rightarrow>
               (case topological_generations graph m' zero' of
                  Inl e \<Rightarrow> Inl e
                | Inr generations \<Rightarrow> Inr (zero # generations)))"
  by pat_completeness auto
termination
proof (relation "measure (\<lambda>(graph, m, zero). length m + (if zero = [] then 0 else 1))")
  show "wf (measure (\<lambda>(graph, m, zero). length m + (if zero = [] then 0 else 1)))"
    by simp
next
  fix graph :: DiGraph and m :: "(string \<times> int) list" and zero :: "string list"
    and st m' zero'
  assume nonempty: "zero \<noteq> []"
    and run: "process_generation graph (m, []) zero = Inr st"
    and st: "(m', zero') = st"
  have del: "length (dict_del d k) < length d" if "map_of d k = Some v"
    for d :: "(string \<times> int) list" and k v
    using that unfolding dict_del_def
    by (induction d) (auto simp: less_Suc_eq_le split: if_splits)
  have upd: "length (dict_set d k v) = length d" if "map_of d k = Some w"
    for d :: "(string \<times> int) list" and k v w
    using that by (induction d) (auto split: if_splits)
  have relax: "length (fst st') + length (snd st') \<le> length (fst s) + length (snd s)"
    if "relax_children s cs = Inr st'" for s st' cs
    using that
  proof (induction s cs rule: relax_children.induct)
    case (1 s)
    then show ?case by simp
  next
    case (2 d z child rest)
    then obtain v where v: "map_of d child = Some v"
      by (auto split: option.splits)
    show ?case
    proof (cases "v - 1 = 0")
      case True
      then have "length (fst st') + length (snd st') \<le> length (dict_del d child) + length (z @ [child])"
        using 2 v by simp
      then show ?thesis using del [OF v] by simp
    next
      case False
      then have "length (fst st') + length (snd st') \<le> length (dict_set d child (v - 1)) + length z"
        using 2 v by simp
      then show ?thesis using upd [OF v] by simp
    qed
  qed
  have gen: "length (fst st') + length (snd st') \<le> length (fst s) + length (snd s)"
    if "process_generation graph s ns = Inr st'" for s st' ns
    using that
  proof (induction ns arbitrary: s)
    case Nil
    then show ?case by simp
  next
    case (Cons n ns)
    then obtain s1 where s1: "relax_children s (neighbors graph n) = Inr s1"
      and rest: "process_generation graph s1 ns = Inr st'"
      by (auto split: if_splits sum.splits)
    show ?case using relax [OF s1] Cons.IH [OF rest] by simp
  qed
  have "length m' + length zero' \<le> length m"
    using gen [OF run] st by auto
  then show "((graph, m', zero'), (graph, m, zero)) \<in>
              measure (\<lambda>(graph, m, zero). length m + (if zero = [] then 0 else 1))"
    using nonempty by (cases zero') auto
qed

definition topological_sort :: "DiGraph \<Rightarrow> error + string list" where
  "topological_sort graph =
     (case topological_generations graph (indegree_map graph) (zero_indegree graph) of
        Inl e \<Rightarrow> Inl e
      | Inr generations \<Rightarrow> Inr (concat generations))"

text \<open>
  \<open>has_cycle\<close> runs the sort and catches \<open>NetworkXUnfeasible\<close> only; a \<open>DiGraph\<close> is
  directed.
\<close>

definition is_directed_acyclic_graph :: "DiGraph \<Rightarrow> error + bool" where
  "is_directed_acyclic_graph graph =
     (case topological_sort graph of
        Inr order \<Rightarrow> Inr True
      | Inl e \<Rightarrow> if e = Unfeasible then Inr False else Inl e)"

section \<open>Import refactoring and formatting (dag.py)\<close>

text \<open>
  The state of the loop of \<open>refactor_imports\<close>: \<open>from_imports\<close> is a dict from the text
  before \<open>" import "\<close> to the set of the texts after it, \<open>import_lines\<close> a set; both sets
  are lists without repetition (their order is never observed: they are sorted before
  use).
\<close>

record imports_state =
  from_imports :: "(string \<times> string list) list"
  import_lines :: "string list"
  other_lines :: "string list"

definition set_add :: "'a list \<Rightarrow> 'a \<Rightarrow> 'a list" where
  "set_add xs x = (if x \<in> set xs then xs else xs @ [x])"

definition add_from_import :: "(string \<times> string list) list \<Rightarrow> string \<Rightarrow> string \<Rightarrow> (string \<times> string list) list" where
  "add_from_import d module imported =
     (case map_of d module of
        Some items \<Rightarrow> dict_set d module (set_add items imported)
      | None \<Rightarrow> dict_set d module [imported])"

text \<open>
  The loop over the lines. \<open>module, imported = line.split(" import ")\<close> raises unless the
  split has exactly two pieces.
\<close>

fun scan_lines :: "imports_state \<Rightarrow> string list \<Rightarrow> error + imports_state" where
  "scan_lines st [] = Inr st"
| "scan_lines st (line # rest) =
     (if startswith line ''from '' then
        (case split '' import '' line of
           [module, imported] \<Rightarrow>
             scan_lines (st\<lparr>from_imports := add_from_import (from_imports st) module imported\<rparr>) rest
         | _ \<Rightarrow> Inl UnpackError)
      else if startswith line ''import '' then
        scan_lines (st\<lparr>import_lines := set_add (import_lines st) line\<rparr>) rest
      else scan_lines (st\<lparr>other_lines := other_lines st @ [line]\<rparr>) rest)"

definition refactor_imports :: "string \<Rightarrow> error + string" where
  "refactor_imports file_content =
     (case scan_lines \<lparr>from_imports = [], import_lines = [], other_lines = []\<rparr>
             (split [CHR 0x0A] file_content) of
        Inl e \<Rightarrow> Inl e
      | Inr st \<Rightarrow>
          let consolidated_from_imports =
                map (\<lambda>(module, items). module @ '' import '' @ join '', '' (sort items))
                  (from_imports st);
              all_imports = sort (import_lines st @ consolidated_from_imports);
              sorted_imports = join [CHR 0x0A] all_imports;
              rest_of_file = join [CHR 0x0A] (other_lines st)
          in Inr (sorted_imports @ [CHR 0x0A, CHR 0x0A] @ rest_of_file))"

text \<open>
  \<open>isort.code\<close> and \<open>black.format_str\<close> are libraries outside the repository: they are
  parameters of the model, each a function that returns the new text or raises.
\<close>

record formatters =
  isort_code :: "string \<Rightarrow> error + string"
  black_format_str :: "string \<Rightarrow> error + string"

definition format_and_sort_code :: "formatters \<Rightarrow> string \<Rightarrow> error + string" where
  "format_and_sort_code fmt file_content =
     (case isort_code fmt file_content of
        Inl e \<Rightarrow> Inl e
      | Inr sorted_content \<Rightarrow> black_format_str fmt sorted_content)"

section \<open>Compiling a graph (dag.py)\<close>

text \<open>
  The methods of \<open>Node\<close> that \<open>compile_graph\<close> calls are defined in a module of the
  repository that is not among the sources at hand; they are parameters of the model.
  Each is a function of the current value of the node it is called on;
  \<open>request_to_code\<close> is called when the \<open>name\<close> of the object has just been set, the
  other two also read the map of the output names. They are taken to return and to
  write to no object.
\<close>

record node_methods =
  request_to_code :: "Node \<Rightarrow> string"
  response_to_code :: "Node \<Rightarrow> (string \<times> string) list \<Rightarrow> string"
  to_code :: "Node \<Rightarrow> (string \<times> string) list \<Rightarrow> string \<times> (string \<times> string) list"

record ExecutionPath =
  name :: string
  endpoint_name :: string

record FunctionData =
  function_name :: string
  code :: string
  requirements_txt :: string
  endpoint_name :: string

text \<open>
  What one round of the loop appends to \<open>graph_script\<close>: the header of the function
  (a vertex with \<open>request\<close> in its name), the return statement (\<open>response\<close> in its
  name) or the call of an interior node.
\<close>

datatype emission_kind = Header | Return | CallSite

record emission =
  kind :: emission_kind
  vertex :: string
  text_emitted :: string

text \<open>
  The variables of the loop of \<open>compile_graph\<close>. \<open>emissions\<close> is not a variable of the
  source: it logs each text appended to \<open>graph_script\<close>, in the order of the appends.
\<close>

record compile_state =
  output_name_map :: "(string \<times> string) list"
  python_file :: string
  graph_script :: string
  requirements :: "RequiredPackage list"
  emissions :: "emission list"

definition derive_function_name :: "string \<Rightarrow> string" where
  "derive_function_name route_name =
     lower (strip (replace ''/'' '''' (replace ''-'' ''_'' (replace '' '' ''_'' route_name))))
     @ ''_request''"

text \<open>
  One round of the loop, on the vertex \<open>node_name\<close> whose \<open>node\<close> attribute is the
  reference \<open>r\<close>. \<open>node.name = function_name\<close> writes to the object in the store, so
  every vertex that holds the same reference reads the new name afterwards.
\<close>

definition emit_node ::
  "node_methods \<Rightarrow> string \<Rightarrow> compile_state \<Rightarrow> store \<Rightarrow> string \<Rightarrow> ref
   \<Rightarrow> compile_state \<times> store" where
  "emit_node nm fname st s node_name r =
     (let st = st\<lparr>requirements := requirements st @ required_packages (s r)\<rparr>
      in if contains node_name ''request'' then
           (let s' = s(r := (s r)\<lparr>Node.name := fname\<rparr>);
                piece = request_to_code nm (s' r)
            in (st\<lparr>graph_script := graph_script st @ piece,
                   emissions := emissions st @
                     [\<lparr>kind = Header, vertex = node_name, text_emitted = piece\<rparr>]\<rparr>,
                s'))
         else if contains node_name ''response'' then
           (let piece = response_to_code nm (s r) (output_name_map st)
            in (st\<lparr>graph_script := graph_script st @ piece,
                   emissions := emissions st @
                     [\<lparr>kind = Return, vertex = node_name, text_emitted = piece\<rparr>]\<rparr>,
                s))
         else
           (case to_code nm (s r) (output_name_map st) of
              (code', unique_output_names_map) \<Rightarrow>
                (st\<lparr>python_file := python_file st @ [CHR 0x0A] @ Node.code (s r) @ [CHR 0x0A],
                    output_name_map := dict_merge (output_name_map st) unique_output_names_map,
                    graph_script := graph_script st @ code' @ [CHR 0x0A],
                    emissions := emissions st @
                      [\<lparr>kind = CallSite, vertex = node_name,
                         text_emitted = code' @ [CHR 0x0A]\<rparr>]\<rparr>,
                 s)))"

text \<open>
  The loop over the sorted vertices; \<open>graph.nodes[node_name]["node"]\<close> is a lookup. The
  result is the outcome, the final variables or the exception, beside the store as the
  loop leaves it.
\<close>

fun emit_nodes ::
  "node_methods \<Rightarrow> string \<Rightarrow> DiGraph \<Rightarrow> compile_state \<Rightarrow> store \<Rightarrow> string list
   \<Rightarrow> (error + compile_state) \<times> store" where
  "emit_nodes nm fname graph st s [] = (Inr st, s)"
| "emit_nodes nm fname graph st s (node_name # rest) =
     (case map_of (nodes graph) node_name of
        None \<Rightarrow> (Inl KeyError, s)
      | Some r \<Rightarrow>
          (case emit_node nm fname st s node_name r of
             (st', s') \<Rightarrow> emit_nodes nm fname graph st' s' rest))"

definition initial_state :: compile_state where
  "initial_state =
     \<lparr>output_name_map = [], python_file = [], graph_script = [],
      requirements = [], emissions = []\<rparr>"

text \<open>
  The loop of \<open>compile_graph\<close> from the acyclicity check to the last vertex, as a
  function of its own: \<open>compile_graph\<close> goes on from its final state.
\<close>

definition compile_loop ::
  "node_methods \<Rightarrow> store \<Rightarrow> DiGraph \<Rightarrow> ExecutionPath \<Rightarrow> (error + compile_state) \<times> store" where
  "compile_loop nm s graph ep =
     (case is_directed_acyclic_graph graph of
        Inl e \<Rightarrow> (Inl e, s)
      | Inr dag \<Rightarrow>
          if \<not> dag then (Inl NotADAG, s)
          else
            (case topological_sort graph of
               Inl e \<Rightarrow> (Inl e, s)
             | Inr order \<Rightarrow>
                 emit_nodes nm (derive_function_name (ExecutionPath.name ep)) graph
                   initial_state s order))"

text \<open>
  \<open>compile_graph\<close>: the \<open>FunctionData\<close> or the exception, beside the store as the call
  leaves it.
\<close>

definition compile_graph ::
  "node_methods \<Rightarrow> formatters \<Rightarrow> store \<Rightarrow> DiGraph \<Rightarrow> ExecutionPath
   \<Rightarrow> (error + FunctionData) \<times> store" where
  "compile_graph nm fmt s graph ep =
     (case compile_loop nm s graph ep of
        (Inl e, s') \<Rightarrow> (Inl e, s')
      | (Inr st, s') \<Rightarrow>
          (case generate_requirements_txt (requirements st) of
             Inl e \<Rightarrow> (Inl e, s')
           | Inr requirements_txt' \<Rightarrow>
               (case refactor_imports (python_file st @ [CHR 0x0A] @ graph_script st) of
                  Inl e \<Rightarrow> (Inl e, s')
                | Inr refactored \<Rightarrow>
                    (case format_and_sort_code fmt refactored of
                       Inl e \<Rightarrow> (Inl e, s')
                     | Inr code' \<Rightarrow>
                         (Inr \<lparr>function_name = derive_function_name (ExecutionPath.name ep),
                               code = code',
                               requirements_txt = requirements_txt',
                               endpoint_name = ExecutionPath.endpoint_name ep\<rparr>,
                          s')))))"

section \<open>Recursive decomposition (agent.py)\<close>

text \<open>
  The fields of the database model \<open>Function\<close> that agent.py reads; \<open>ChildFunction\<close> is
  the list of the declared children (an absent list is the empty one: the source tests
  it for truth only). \<open>FunctionDef\<close> is an entry of the registry
  \<open>generated_function_defs\<close>.
\<close>

datatype Function =
  Function (id: int) (functionName: string) (template: string) (ChildFunction: "Function list")

record FunctionDef =
  name :: string
  function_template :: string

text \<open>
  The parameters of an invocation of the oracle \<open>DevelopAIBlock().invoke\<close>. (\<open>ids\<close> and
  \<open>api_route\<close> are the same in every invocation of a route and are left out.) The
  oracle is outside the repository's sources at hand: it is a parameter of the model, a
  function from the registry and the parameters to the function it generates, or the
  exception it raises, and the registry as it leaves it.
\<close>

record invoke_params =
  function_name :: string
  description :: string
  provided_functions :: "string list"
  function_id :: "int option"

type_synonym generation_oracle =
  "FunctionDef list \<Rightarrow> invoke_params \<Rightarrow> (error + Function) \<times> FunctionDef list"

definition RECURSION_DEPTH_LIMIT :: int where
  "RECURSION_DEPTH_LIMIT = 3"

definition provided :: "FunctionDef list \<Rightarrow> string \<Rightarrow> string list" where
  "provided defs fname =
     map function_template (filter (\<lambda>f. FunctionDef.name f \<noteq> fname) defs)"

text \<open>
  \<open>recursive_create_function\<close> with the loop over the children as a second function.
  \<open>limit\<close> is \<open>RECURSION_DEPTH_LIMIT\<close>, read from the environment when the module is
  loaded. An exception of a child ends the loop and the call.
\<close>

function recursive_create_function ::
    "generation_oracle \<Rightarrow> int \<Rightarrow> string \<Rightarrow> Function \<Rightarrow> int \<Rightarrow> FunctionDef list
     \<Rightarrow> (error + Function) \<times> FunctionDef list"
  and create_children ::
    "generation_oracle \<Rightarrow> int \<Rightarrow> string \<Rightarrow> Function list \<Rightarrow> int \<Rightarrow> FunctionDef list
     \<Rightarrow> (error + unit) \<times> FunctionDef list" where
  "recursive_create_function invoke limit route_description function_def depth defs =
     (if depth > limit then (Inl RecursionLimitExceeded, defs)
      else
        case invoke defs
               \<lparr>function_name = functionName function_def,
                description = [CHR 0x0A] @ template function_def @ [CHR 0x0A, CHR 0x0A]
                              @ ''High-level Goal: '' @ route_description,
                provided_functions = provided defs (functionName function_def),
                function_id = Some (id function_def)\<rparr> of
          (Inl e, defs') \<Rightarrow> (Inl e, defs')
        | (Inr route_function, defs') \<Rightarrow>
            (case create_children invoke limit route_description
                    (ChildFunction route_function) (depth + 1) defs' of
               (Inl e, defs'') \<Rightarrow> (Inl e, defs'')
             | (Inr u, defs'') \<Rightarrow> (Inr route_function, defs'')))"
| "create_children invoke limit route_description [] depth defs = (Inr (), defs)"
| "create_children invoke limit route_description (child # rest) depth defs =
     (case recursive_create_function invoke limit route_description child depth defs of
        (Inl e, defs') \<Rightarrow> (Inl e, defs')
      | (Inr f, defs') \<Rightarrow> create_children invoke limit route_description rest depth defs')"
  by pat_completeness auto
termination
  by (relation "measures
        [\<lambda>x. case x of
                Inl (invoke, limit, rd, f, depth, defs) \<Rightarrow> nat (limit - depth + 2)
              | Inr (invoke, limit, rd, cs, depth, defs) \<Rightarrow> nat (limit - depth + 2),
         \<lambda>x. case x of
                Inl (invoke, limit, rd, f, depth, defs) \<Rightarrow> 0
              | Inr (invoke, limit, rd, cs, depth, defs) \<Rightarrow> Suc (length cs)]")
     auto

text \<open>
  \<open>develop_route\<close>: the registry is reset, the route's own function is generated, and
  each of its children is created at depth 0.
\<close>

definition develop_route ::
  "generation_oracle \<Rightarrow> int \<Rightarrow> string \<Rightarrow> string \<Rightarrow> (error + Function) \<times> FunctionDef list" where
  "develop_route invoke limit route_description func_name =
     (case invoke []
             \<lparr>function_name = func_name,
              description = route_description,
              provided_functions = provided [] func_name,
              function_id = None\<rparr> of
        (Inl e, defs') \<Rightarrow> (Inl e, defs')
      | (Inr route_function, defs') \<Rightarrow>
          (case create_children invoke limit route_description
                  (ChildFunction route_function) 0 defs' of
             (Inl e, defs'') \<Rightarrow> (Inl e, defs'')
           | (Inr u, defs'') \<Rightarrow> (Inr route_function, defs'')))"

text \<open>
  A synthetic oracle that always declares exactly one child: it generates the function
  asked for, with one child named after it, and registers the generated function.
\<close>

definition one_child_oracle :: generation_oracle where
  "one_child_oracle defs p =
     (Inr (Function 0 (function_name p) (description p)
             [Function 0 (function_name p @ ''_child'') '''' []]),
      defs @ [\<lparr>name = function_name p, function_template = function_name p\<rparr>])"

section \<open>Notions and examples used in the proofs\<close>

text \<open>The first pair of every key of \<open>resolved_packages\<close>.\<close>

definition heads ::
  "(string \<times> version_specifier list) list \<Rightarrow> (string \<times> version_specifier) list" where
  "heads r = map (\<lambda>(k, vs). (k, hd vs)) r"

text \<open>
  The lines of a text, read off at the line feeds, and the text of a list of lines: each
  line but the last is followed by a line feed. A package is on one line when none of
  its fields holds a line feed.
\<close>

fun lines_from :: "string \<Rightarrow> string \<Rightarrow> string list" where
  "lines_from cur [] = [cur]"
| "lines_from cur (c # cs) =
     (if c = CHR 0x0A then cur # lines_from [] cs else lines_from (cur @ [c]) cs)"

definition text_lines :: "string \<Rightarrow> string list" where
  "text_lines s = lines_from [] s"

fun lines_text :: "string list \<Rightarrow> string" where
  "lines_text [] = []"
| "lines_text ls = concat (map (\<lambda>l. l @ [CHR 0x0A]) (butlast ls)) @ last ls"

definition on_one_line :: "RequiredPackage \<Rightarrow> bool" where
  "on_one_line p =
     (CHR 0x0A \<notin> set (package_name p) \<and> CHR 0x0A \<notin> set (text_of (version p))
      \<and> CHR 0x0A \<notin> set (text_of (specifier p)))"

text \<open>The keys the vertices of a list produce.\<close>

definition produced :: "store \<Rightarrow> (string \<times> ref) list \<Rightarrow> string set" where
  "produced s ns =
     {param_key q | q n r outs. (n, r) \<in> set ns \<and> output_params (s r) = Some outs \<and> q \<in> set outs}"

text \<open>
  An oracle that always declares exactly one child. The equation of
  \<open>recursive_create_function\<close> is unfolded by hand in the proofs.
\<close>

definition always_one_child :: "generation_oracle \<Rightarrow> bool" where
  "always_one_child invoke =
     (\<forall>defs p. \<exists>g c defs'. invoke defs p = (Inr g, defs') \<and> ChildFunction g = [c])"

declare recursive_create_function.simps [simp del]

text \<open>
  The name of the synthesized function in the words of the specification: spaces and
  hyphens become underscores, slashes are removed, the result is lowercased and
  \<open>_request\<close> is appended.
\<close>

definition underscored_unslashed :: "string \<Rightarrow> string" where
  "underscored_unslashed n =
     filter (\<lambda>c. c \<noteq> CHR ''/'')
       (map (\<lambda>c. if c = CHR '' '' \<or> c = CHR ''-'' then CHR ''_'' else c) n)"

definition spec_function_name :: "string \<Rightarrow> string" where
  "spec_function_name n = lower (underscored_unslashed n) @ ''_request''"

text \<open>
  The kind of the emission of a vertex, which \<open>compile_graph\<close> decides by the vertex's
  name, and the text of an emission of each kind: the header is made from the node
  with the derived name, the return statement and the call site from the node and the
  map of the output names; the call site ends in a line feed.
\<close>

definition kind_of :: "string \<Rightarrow> emission_kind" where
  "kind_of node_name =
     (if contains node_name ''request'' then Header
      else if contains node_name ''response'' then Return else CallSite)"

fun emission_text ::
  "node_methods \<Rightarrow> string \<Rightarrow> emission_kind \<Rightarrow> Node \<Rightarrow> (string \<times> string) list \<Rightarrow> string" where
  "emission_text nm fname Header node names = request_to_code nm (node\<lparr>Node.name := fname\<rparr>)"
| "emission_text nm fname Return node names = response_to_code nm node names"
| "emission_text nm fname CallSite node names = fst (to_code nm node names) @ [CHR 0x0A]"

text \<open>
  The references of the vertices among \<open>vs\<close> that get a header, and the store in which
  the objects at the references \<open>rs\<close> carry the name \<open>fname\<close>.
\<close>

definition header_refs :: "DiGraph \<Rightarrow> string list \<Rightarrow> ref set" where
  "header_refs graph vs =
     {r. \<exists>v \<in> set vs. kind_of v = Header \<and> map_of (nodes graph) v = Some r}"

definition renamed :: "store \<Rightarrow> string \<Rightarrow> ref set \<Rightarrow> store" where
  "renamed s fname rs = (\<lambda>r. if r \<in> rs then (s r)\<lparr>Node.name := fname\<rparr> else s r)"

text \<open>
  What a vertex adds to \<open>python_file\<close> and to \<open>requirements\<close>: the code of its node
  between two line feeds when the vertex gets a call site, and the packages of its node.
\<close>

definition preamble_of :: "store \<Rightarrow> DiGraph \<Rightarrow> string \<Rightarrow> string" where
  "preamble_of s graph v =
     (case map_of (nodes graph) v of
        None \<Rightarrow> []
      | Some r \<Rightarrow>
          if kind_of v = CallSite then [CHR 0x0A] @ Node.code (s r) @ [CHR 0x0A] else [])"

definition packages_of :: "store \<Rightarrow> DiGraph \<Rightarrow> string \<Rightarrow> RequiredPackage list" where
  "packages_of s graph v =
     (case map_of (nodes graph) v of None \<Rightarrow> [] | Some r \<Rightarrow> required_packages (s r))"

text \<open>
  Stand-ins for the parameters, for concrete runs: formatters that return the text as it
  is, formatters whose \<open>black.format_str\<close> rejects the text, and node methods that emit a
  fixed shape of header, call and return.
\<close>

definition plain_formatters :: formatters where
  "plain_formatters = \<lparr>isort_code = Inr, black_format_str = Inr\<rparr>"

definition plain_methods :: node_methods where
  "plain_methods =
     \<lparr>request_to_code = (\<lambda>node. ''def '' @ Node.name node @ ''():'' @ [CHR 0x0A]),
      response_to_code = (\<lambda>node names. ''    return'' @ [CHR 0x0A]),
      to_code = (\<lambda>node names. (''    '' @ Node.name node @ ''()'', []))\<rparr>"

definition rejecting_formatters :: formatters where
  "rejecting_formatters = \<lparr>isort_code = Inr, black_format_str = (\<lambda>src. Inl UnparsableSource)\<rparr>"

text \<open>
  The nodes of the examples. The first three are the scenario of the specification: a
  start node that produces \<open>x: int\<close>, an interior node from \<open>x: int\<close> to \<open>y: int\<close>, an
  end node that consumes \<open>y: int\<close>. \<open>loop_node\<close> consumes what it produces,
  \<open>commented_import_node\<close> is the interior node with an import that carries a comment
  in front of its code, and nothing produces the input of \<open>consumer_z\<close>.
\<close>

definition request_node :: Node where
  "request_node =
     \<lparr>Node.name = ''request'', input_params = None,
      output_params = Some [\<lparr>param_type = ''int'', Param.name = ''x'', Param.description = []\<rparr>],
      Node.code = [], required_packages = []\<rparr>"

definition double_node :: Node where
  "double_node =
     \<lparr>Node.name = ''double'',
      input_params = Some [\<lparr>param_type = ''int'', Param.name = ''x'', Param.description = []\<rparr>],
      output_params = Some [\<lparr>param_type = ''int'', Param.name = ''y'', Param.description = []\<rparr>],
      Node.code = ''def double(x):'' @ [CHR 0x0A] @ ''    return 2 * x'',
      required_packages =
        [\<lparr>package_name = ''requests'', version = Some ''2.0'', specifier = Some ''==''\<rparr>]\<rparr>"

definition response_node :: Node where
  "response_node =
     \<lparr>Node.name = ''response'',
      input_params = Some [\<lparr>param_type = ''int'', Param.name = ''y'', Param.description = []\<rparr>],
      output_params = None, Node.code = [], required_packages = []\<rparr>"

definition loop_node :: Node where
  "loop_node =
     \<lparr>Node.name = ''step'',
      input_params = Some [\<lparr>param_type = ''int'', Param.name = ''x'', Param.description = []\<rparr>],
      output_params = Some [\<lparr>param_type = ''int'', Param.name = ''x'', Param.description = []\<rparr>],
      Node.code = [], required_packages = []\<rparr>"

definition commented_import_node :: Node where
  "commented_import_node =
     double_node\<lparr>Node.code :=
       ''from math import sqrt  # import the square root'' @ [CHR 0x0A]
       @ ''def double(x):'' @ [CHR 0x0A] @ ''    return 2 * x''\<rparr>"

definition consumer_z :: Node where
  "consumer_z =
     \<lparr>Node.name = ''step'',
      input_params = Some [\<lparr>param_type = ''int'', Param.name = ''z'', Param.description = []\<rparr>],
      output_params = None, Node.code = [], required_packages = []\<rparr>"

text \<open>The store of the examples: the six nodes at the references 0 to 5.\<close>

definition example_store :: store where
  "example_store =
     (\<lambda>r. if r = 0 then request_node else if r = 1 then double_node
          else if r = 2 then response_node else if r = 3 then loop_node
          else if r = 4 then commented_import_node else consumer_z)"

text \<open>
  The graphs of the examples: the scenario; the scenario with vertices named \<open>start\<close>
  and \<open>end\<close>; the scenario with the commented import; one object under a vertex that
  gets the header and under an interior vertex; and the loop that two calls of
  \<open>add_node\<close> build from the node that consumes what it produces (the first insertion
  is into the empty graph, the second finds the vertex itself as the provider).
\<close>

definition scenario_graph :: DiGraph where
  "scenario_graph =
     \<lparr>nodes = [(''request'', 0), (''double'', 1), (''response'', 2)],
      edges = [((''request'', ''double''), ''x''), ((''double'', ''response''), ''y'')]\<rparr>"

definition role_graph :: DiGraph where
  "role_graph =
     \<lparr>nodes = [(''start'', 0), (''double'', 1), (''end'', 2)],
      edges = [((''start'', ''double''), ''x''), ((''double'', ''end''), ''y'')]\<rparr>"

definition commented_import_graph :: DiGraph where
  "commented_import_graph =
     \<lparr>nodes = [(''request'', 0), (''double'', 4), (''response'', 2)],
      edges = [((''request'', ''double''), ''x''), ((''double'', ''response''), ''y'')]\<rparr>"

definition shared_object_graph :: DiGraph where
  "shared_object_graph = \<lparr>nodes = [(''request'', 0), (''again'', 0)], edges = []\<rparr>"

definition self_loop_graph :: DiGraph where
  "self_loop_graph =
     snd (add_node example_store
            (snd (add_node example_store \<lparr>nodes = [], edges = []\<rparr> ''step'' 3)) ''step'' 3)"

definition scenario_path :: ExecutionPath where
  "scenario_path =
     \<lparr>ExecutionPath.name = ''Double It'', ExecutionPath.endpoint_name = ''/double''\<rparr>"

text \<open>
  What the loop of \<open>compile_graph\<close> leaves for the scenario, with the stand-in methods,
  and the source that \<open>refactor_imports\<close> makes of it.
\<close>

definition scenario_state :: compile_state where
  "scenario_state =
     \<lparr>output_name_map = [],
      python_file = [CHR 0x0A] @ ''def double(x):'' @ [CHR 0x0A] @ ''    return 2 * x'' @ [CHR 0x0A],
      graph_script = ''def double_it_request():'' @ [CHR 0x0A] @ ''    double()'' @ [CHR 0x0A]
                     @ ''    return'' @ [CHR 0x0A],
      requirements =
        [\<lparr>package_name = ''requests'', version = Some ''2.0'', specifier = Some ''==''\<rparr>],
      emissions =
        [\<lparr>kind = Header, vertex = ''request'',
           text_emitted = ''def double_it_request():'' @ [CHR 0x0A]\<rparr>,
         \<lparr>kind = CallSite, vertex = ''double'', text_emitted = ''    double()'' @ [CHR 0x0A]\<rparr>,
         \<lparr>kind = Return, vertex = ''response'', text_emitted = ''    return'' @ [CHR 0x0A]\<rparr>]\<rparr>"

definition scenario_source :: string where
  "scenario_source =
     [CHR 0x0A, CHR 0x0A, CHR 0x0A] @ ''def double(x):'' @ [CHR 0x0A]
     @ ''    return 2 * x'' @ [CHR 0x0A, CHR 0x0A] @ ''def double_it_request():''
     @ [CHR 0x0A] @ ''    double()'' @ [CHR 0x0A] @ ''    return'' @ [CHR 0x0A]"

text \<open>
  What the loop leaves for the scenario with the vertices named \<open>start\<close> and \<open>end\<close>, and
  the source that \<open>refactor_imports\<close> makes of it.
\<close>

definition role_state :: compile_state where
  "role_state =
     \<lparr>output_name_map = [],
      python_file = [CHR 0x0A, CHR 0x0A, CHR 0x0A] @ ''def double(x):'' @ [CHR 0x0A]
                    @ ''    return 2 * x'' @ [CHR 0x0A, CHR 0x0A, CHR 0x0A],
      graph_script = ''    request()'' @ [CHR 0x0A] @ ''    double()'' @ [CHR 0x0A]
                     @ ''    response()'' @ [CHR 0x0A],
      requirements =
        [\<lparr>package_name = ''requests'', version = Some ''2.0'', specifier = Some ''==''\<rparr>],
      emissions =
        [\<lparr>kind = CallSite, vertex = ''start'', text_emitted = ''    request()'' @ [CHR 0x0A]\<rparr>,
         \<lparr>kind = CallSite, vertex = ''double'', text_emitted = ''    double()'' @ [CHR 0x0A]\<rparr>,
         \<lparr>kind = CallSite, vertex = ''end'', text_emitted = ''    response()'' @ [CHR 0x0A]\<rparr>]\<rparr>"

definition role_source :: string where
  "role_source =
     [CHR 0x0A, CHR 0x0A, CHR 0x0A, CHR 0x0A, CHR 0x0A] @ ''def double(x):'' @ [CHR 0x0A]
     @ ''    return 2 * x'' @ [CHR 0x0A, CHR 0x0A, CHR 0x0A, CHR 0x0A] @ ''    request()''
     @ [CHR 0x0A] @ ''    double()'' @ [CHR 0x0A] @ ''    response()'' @ [CHR 0x0A]"

text \<open>
  For the topological sort: the predecessors of a vertex that are not yet in the list of
  the vertices sorted so far; a list in which every edge into one of its vertices comes
  from an earlier vertex; and what holds each time the loop of the sort is entered, with
  \<open>done\<close> the generations already yielded.
\<close>

definition pending :: "DiGraph \<Rightarrow> string list \<Rightarrow> string \<Rightarrow> string set" where
  "pending graph done v = {u. (u, v) \<in> edge_rel graph \<and> u \<notin> set done}"

definition providers_first :: "DiGraph \<Rightarrow> string list \<Rightarrow> bool" where
  "providers_first graph order =
     (\<forall>e \<in> edge_rel graph.
        snd e \<in> set order \<longrightarrow> fst e \<in> set (takeWhile (\<lambda>x. x \<noteq> snd e) order))"

definition kahn_inv :: "DiGraph \<Rightarrow> string list \<Rightarrow> (string \<times> int) list \<Rightarrow> string list \<Rightarrow> bool" where
  "kahn_inv graph done m zero =
     (distinct (done @ zero @ keys m)
      \<and> set (done @ zero @ keys m) = set (keys (nodes graph))
      \<and> providers_first graph done
      \<and> (\<forall>v \<in> set zero. pending graph done v = {})
      \<and> (\<forall>v d. map_of m v = Some d \<longrightarrow> d = int (card (pending graph done v)) \<and> 0 < d))"

text \<open>The equation of \<open>topological_generations\<close> is unfolded by hand in the proofs.\<close>

declare topological_generations.simps [simp del]

section \<open>The requirement manifest\<close>

lemma fst_append_resolved:
  "map fst (append_resolved r k v) = (if k \<in> fst ` set r then map fst r else map fst r @ [k])"
  by (induction r k v rule: append_resolved.induct) auto

lemma heads_append_resolved:
  "\<forall>(k', vs) \<in> set r. vs \<noteq> [] \<Longrightarrow>
   heads (append_resolved r k v) = (if k \<in> fst ` set r then heads r else heads r @ [(k, v)])"
  by (induction r k v rule: append_resolved.induct) (auto simp: heads_def)

lemma nonempty_append_resolved:
  "\<forall>(k', vs) \<in> set r. vs \<noteq> [] \<Longrightarrow> \<forall>(k', vs) \<in> set (append_resolved r k v). vs \<noteq> []"
  by (induction r k v rule: append_resolved.induct) auto

lemma first_seen_pair_Cons:
  "first_seen_pair (p # ps) n =
     (if package_name p = n then (version p, specifier p) else first_seen_pair ps n)"
  by (simp add: first_seen_pair_def)

lemma heads_aggregate:
  "\<forall>(k', vs) \<in> set r. vs \<noteq> [] \<Longrightarrow>
   heads (aggregate r ps) =
     heads r @ map (\<lambda>n. (n, first_seen_pair ps n))
                 (filter (\<lambda>n. n \<notin> fst ` set r) (first_seen_names (map package_name ps)))"
proof (induction ps arbitrary: r)
  case Nil
  then show ?case by simp
next
  case (Cons p ps)
  let ?k = "package_name p"
  let ?r' = "append_resolved r ?k (version p, specifier p)"
  have ne: "\<forall>(k', vs) \<in> set ?r'. vs \<noteq> []"
    using Cons.prems by (rule nonempty_append_resolved)
  have keys: "fst ` set ?r' = insert ?k (fst ` set r)"
    using fst_append_resolved [of r ?k "(version p, specifier p)"]
    by (metis (no_types, lifting) insert_absorb list.set_map set_append list.simps(15) Un_insert_right
        sup_bot.right_neutral empty_set)
  have flt: "filter (\<lambda>n. n \<notin> fst ` set ?r') (first_seen_names (map package_name ps)) =
             filter (\<lambda>n. n \<notin> fst ` set r) (filter (\<lambda>m. m \<noteq> ?k) (first_seen_names (map package_name ps)))"
    unfolding keys by (simp add: conj_commute)
  have pair: "map (\<lambda>n. (n, first_seen_pair (p # ps) n)) (filter (\<lambda>m. m \<noteq> ?k) xs) =
              map (\<lambda>n. (n, first_seen_pair ps n)) (filter (\<lambda>m. m \<noteq> ?k) xs)" for xs
    by (induction xs) (auto simp: first_seen_pair_Cons)
  have pair': "map (\<lambda>n. (n, first_seen_pair (p # ps) n)) (filter (\<lambda>n. n \<notin> fst ` set r) (filter (\<lambda>m. m \<noteq> ?k) xs)) =
              map (\<lambda>n. (n, first_seen_pair ps n)) (filter (\<lambda>n. n \<notin> fst ` set r) (filter (\<lambda>m. m \<noteq> ?k) xs))" for xs
    by (induction xs) (auto simp: first_seen_pair_Cons)
  show ?case
    using Cons.IH [OF ne] heads_append_resolved [OF Cons.prems, of ?k "(version p, specifier p)"]
    by (auto simp: flt pair' first_seen_pair_Cons)
qed

lemma requirements_of_heads:
  "\<forall>(k', vs) \<in> set r. vs \<noteq> [] \<Longrightarrow>
   requirements_of r = Inr (map (\<lambda>(k, h). requirement k h) (heads r))"
  by (induction r rule: requirements_of.induct) (auto simp: heads_def split: list.splits)

lemma nonempty_aggregate:
  "\<forall>(k', vs) \<in> set r. vs \<noteq> [] \<Longrightarrow> \<forall>(k', vs) \<in> set (aggregate r ps). vs \<noteq> []"
proof (induction ps arbitrary: r)
  case Nil
  then show ?case by simp
next
  case (Cons p ps)
  show ?case
    using Cons.IH [OF nonempty_append_resolved [OF Cons.prems]] by simp
qed

lemma requirements_of_aggregate:
  "requirements_of (aggregate [] packages) =
     Inr (map (\<lambda>n. requirement n (first_seen_pair packages n))
            (first_seen_names (map package_name packages)))"
proof -
  have ne: "\<forall>(k', vs) \<in> set (aggregate [] packages). vs \<noteq> []"
    by (rule nonempty_aggregate) simp
  have "heads (aggregate [] packages) =
          map (\<lambda>n. (n, first_seen_pair packages n)) (first_seen_names (map package_name packages))"
    using heads_aggregate [of "[]" packages] by (simp add: heads_def)
  then show ?thesis
    using requirements_of_heads [OF ne] by (simp add: comp_def)
qed

lemma set_first_seen_names: "set (first_seen_names ns) = set ns"
  by (induction ns) auto

lemma distinct_first_seen_names: "distinct (first_seen_names ns)"
  by (induction ns) (auto simp: set_first_seen_names)

lemma join_lines_text: "join [CHR 0x0A] ls = lines_text ls"
  by (induction "[CHR 0x0A]" ls rule: join.induct) auto

lemma lines_from_no_feed:
  "CHR 0x0A \<notin> set l \<Longrightarrow> lines_from cur (l @ rest) = lines_from (cur @ l) rest"
  by (induction l arbitrary: cur) auto

lemma lines_from_join:
  assumes "\<forall>l \<in> set (l # ls). CHR 0x0A \<notin> set l"
  shows "lines_from cur (join [CHR 0x0A] (l # ls)) = (cur @ l) # ls"
  using assms
proof (induction ls arbitrary: cur l)
  case Nil
  then show ?case using lines_from_no_feed [of l cur "[]"] by simp
next
  case (Cons k ls)
  have "lines_from cur (join [CHR 0x0A] (l # k # ls)) =
        lines_from (cur @ l) (CHR 0x0A # join [CHR 0x0A] (k # ls))"
    using Cons.prems lines_from_no_feed [of l cur "CHR 0x0A # join [CHR 0x0A] (k # ls)"] by simp
  also have "\<dots> = (cur @ l) # lines_from [] (join [CHR 0x0A] (k # ls))" by simp
  also have "\<dots> = (cur @ l) # k # ls" using Cons.IH [of k "[]"] Cons.prems by simp
  finally show ?case .
qed

lemma text_lines_lines_text:
  assumes "ls \<noteq> []" "\<forall>l \<in> set ls. CHR 0x0A \<notin> set l"
  shows "text_lines (lines_text ls) = ls"
proof -
  obtain l ks where ls: "ls = l # ks" using assms(1) by (cases ls) auto
  show ?thesis
    using lines_from_join [of l ks "[]"] assms(2)
    unfolding text_lines_def join_lines_text [symmetric] ls by simp
qed

lemma requirement_starts_with_name: "startswith (requirement n vs) n"
  by (cases vs) (simp add: requirement_def startswith_def)

lemma requirement_no_feed:
  assumes "CHR 0x0A \<notin> set n" "CHR 0x0A \<notin> set (text_of v)" "CHR 0x0A \<notin> set (text_of sp)"
  shows "CHR 0x0A \<notin> set (requirement n (v, sp))"
  using assms by (simp add: requirement_def)

lemma first_seen_pair_member:
  assumes "n \<in> package_name ` set packages"
  shows "\<exists>p \<in> set packages. package_name p = n \<and> first_seen_pair packages n = (version p, specifier p)"
proof -
  from assms obtain q where q: "find (\<lambda>p. package_name p = n) packages = Some q"
    by (cases "find (\<lambda>p. package_name p = n) packages") (auto simp: find_None_iff)
  then have "q \<in> set packages" "package_name q = n"
    by (auto simp: find_Some_iff in_set_conv_nth)
  moreover have "first_seen_pair packages n = (version q, specifier q)"
    using q by (simp add: first_seen_pair_def)
  ultimately show ?thesis by blast
qed

lemma requirement_lines_no_feed:
  assumes "\<forall>p \<in> set packages. on_one_line p"
  shows "\<forall>l \<in> set (map (\<lambda>n. requirement n (first_seen_pair packages n))
                     (first_seen_names (map package_name packages))). CHR 0x0A \<notin> set l"
proof
  fix l
  assume "l \<in> set (map (\<lambda>n. requirement n (first_seen_pair packages n))
                     (first_seen_names (map package_name packages)))"
  then obtain n where n: "n \<in> package_name ` set packages"
    and l: "l = requirement n (first_seen_pair packages n)"
    by (auto simp: set_first_seen_names)
  obtain p where p: "p \<in> set packages" "package_name p = n"
    "first_seen_pair packages n = (version p, specifier p)"
    using first_seen_pair_member [OF n] by blast
  have "on_one_line p" using assms p(1) by simp
  then show "CHR 0x0A \<notin> set l"
    unfolding l p(3) using p(2) requirement_no_feed [of n "version p" "specifier p"]
    by (simp add: on_one_line_def)
qed

text \<open>
  C7, as the code has it. The manifest has one requirement per distinct package name, in
  the order the names are first seen; the requirement of a name starts with the name
  and is formatted from the version and the specifier of the first package of that
  name; every requirement but the last is followed by a line feed. So for a list that
  is not empty and whose names, versions and specifiers hold no line feed, the lines
  of the manifest are exactly these requirements, one line per distinct package name;
  for the empty list the manifest is the empty text. For the two packages
  \<open>requests 2.0\<close> and \<open>requests 2.1\<close>, both with \<open>==\<close>, the manifest is the one line
  \<open>requests==2.0\<close>.
\<close>

theorem generate_requirements_txt_first_seen:
  "generate_requirements_txt packages =
     Inr (lines_text
            (map (\<lambda>n. requirement n (first_seen_pair packages n))
               (first_seen_names (map package_name packages))))
   \<and> distinct (first_seen_names (map package_name packages))
   \<and> set (first_seen_names (map package_name packages)) = package_name ` set packages
   \<and> startswith (requirement n vs) n
   \<and> (packages \<noteq> [] \<and> (\<forall>p \<in> set packages. on_one_line p) \<longrightarrow>
        (\<exists>manifest. generate_requirements_txt packages = Inr manifest
           \<and> text_lines manifest =
               map (\<lambda>n. requirement n (first_seen_pair packages n))
                 (first_seen_names (map package_name packages))
           \<and> length (text_lines manifest) = card (package_name ` set packages)))
   \<and> generate_requirements_txt [] = Inr []
   \<and> generate_requirements_txt
         [\<lparr>package_name = ''requests'', version = Some ''2.0'', specifier = Some ''==''\<rparr>,
          \<lparr>package_name = ''requests'', version = Some ''2.1'', specifier = Some ''==''\<rparr>]
       = Inr ''requests==2.0''"
proof -
  let ?names = "first_seen_names (map package_name packages)"
  let ?lines = "map (\<lambda>n. requirement n (first_seen_pair packages n)) ?names"
  have gen: "generate_requirements_txt packages = Inr (lines_text ?lines)"
    by (simp add: generate_requirements_txt_def requirements_of_aggregate join_lines_text)
  have d: "distinct ?names" by (rule distinct_first_seen_names)
  have s: "set ?names = package_name ` set packages" by (simp add: set_first_seen_names)
  have lines: "\<exists>manifest. generate_requirements_txt packages = Inr manifest
           \<and> text_lines manifest = ?lines
           \<and> length (text_lines manifest) = card (package_name ` set packages)"
    if ne: "packages \<noteq> []" and one: "\<forall>p \<in> set packages. on_one_line p"
  proof -
    have "?names \<noteq> []" using s ne by (cases packages) auto
    then have "?lines \<noteq> []" by simp
    then have tl: "text_lines (lines_text ?lines) = ?lines"
      using requirement_lines_no_feed [OF one] by (rule text_lines_lines_text)
    have "length ?lines = card (package_name ` set packages)"
      using distinct_card [OF d] s by simp
    then show ?thesis using gen tl by simp
  qed
  have empty: "generate_requirements_txt [] = Inr []"
    by (simp add: generate_requirements_txt_def)
  have ex: "generate_requirements_txt
         [\<lparr>package_name = ''requests'', version = Some ''2.0'', specifier = Some ''==''\<rparr>,
          \<lparr>package_name = ''requests'', version = Some ''2.1'', specifier = Some ''==''\<rparr>]
       = Inr ''requests==2.0''"
    by (simp add: generate_requirements_txt_def requirement_def)
  show ?thesis
    using gen d s requirement_starts_with_name [of n vs] lines empty ex by blast
qed

text \<open>
  Four packages with two names twice and the three shapes of a requirement: the
  manifest has three lines.
\<close>

theorem generate_requirements_txt_first_seen_witness:
  "generate_requirements_txt
     [\<lparr>package_name = ''requests'', version = Some ''2.0'', specifier = Some ''==''\<rparr>,
      \<lparr>package_name = ''numpy'', version = None, specifier = None\<rparr>,
      \<lparr>package_name = ''requests'', version = Some ''2.1'', specifier = Some ''==''\<rparr>,
      \<lparr>package_name = ''flask'', version = Some ''1.0'', specifier = None\<rparr>,
      \<lparr>package_name = ''numpy'', version = Some ''1.26'', specifier = Some ''>=''\<rparr>]
     = Inr (''requests==2.0'' @ [CHR 0x0A] @ ''numpy'' @ [CHR 0x0A] @ ''flask==1.0'')
   \<and> text_lines (''requests==2.0'' @ [CHR 0x0A] @ ''numpy'' @ [CHR 0x0A] @ ''flask==1.0'') =
       [''requests==2.0'', ''numpy'', ''flask==1.0'']"
proof -
  let ?ps = "[\<lparr>package_name = ''requests'', version = Some ''2.0'', specifier = Some ''==''\<rparr>,
      \<lparr>package_name = ''numpy'', version = None, specifier = None\<rparr>,
      \<lparr>package_name = ''requests'', version = Some ''2.1'', specifier = Some ''==''\<rparr>,
      \<lparr>package_name = ''flask'', version = Some ''1.0'', specifier = None\<rparr>,
      \<lparr>package_name = ''numpy'', version = Some ''1.26'', specifier = Some ''>=''\<rparr>]"
  have one: "\<forall>p \<in> set ?ps. on_one_line p" by (simp add: on_one_line_def)
  have names: "first_seen_names (map package_name ?ps) = [''requests'', ''numpy'', ''flask'']"
    by simp
  have rows: "map (\<lambda>n. requirement n (first_seen_pair ?ps n)) [''requests'', ''numpy'', ''flask''] =
        [''requests==2.0'', ''numpy'', ''flask==1.0'']"
    by (simp add: first_seen_pair_def requirement_def)
  obtain manifest where m: "generate_requirements_txt ?ps = Inr manifest"
    and t: "text_lines manifest =
              map (\<lambda>n. requirement n (first_seen_pair ?ps n)) (first_seen_names (map package_name ?ps))"
    using generate_requirements_txt_first_seen [of ?ps] one by blast
  have g: "generate_requirements_txt ?ps =
        Inr (lines_text (map (\<lambda>n. requirement n (first_seen_pair ?ps n))
                          (first_seen_names (map package_name ?ps))))"
    using generate_requirements_txt_first_seen [of ?ps] by blast
  have "manifest = ''requests==2.0'' @ [CHR 0x0A] @ ''numpy'' @ [CHR 0x0A] @ ''flask==1.0''"
    using m g unfolding names rows by simp
  then show ?thesis using m t unfolding names rows by simp
qed

text \<open>
  A package whose name holds a line feed: one distinct name, and a manifest of two
  lines.
\<close>

theorem generate_requirements_txt_line_feed_counterexample:
  "generate_requirements_txt
     [\<lparr>package_name = ''a'' @ [CHR 0x0A] @ ''b'', version = None, specifier = None\<rparr>]
     = Inr (''a'' @ [CHR 0x0A] @ ''b'')
   \<and> text_lines (''a'' @ [CHR 0x0A] @ ''b'') = [''a'', ''b'']"
  by (simp add: generate_requirements_txt_def requirement_def text_lines_def)

section \<open>Parameter type validation\<close>

lemma split_from_no_sep:
  "b \<notin> set s \<Longrightarrow> split_from [b] cur s = [cur @ s]"
  by (induction s arbitrary: cur) (auto simp: startswith_def)

lemma split_from_first_sep:
  "b \<notin> set p \<Longrightarrow> split_from [b] cur (p @ b # rest) = (cur @ p) # split_from [b] [] rest"
  by (induction p arbitrary: cur) (auto simp: startswith_def)

lemma split_container:
  assumes "CHR ''['' \<notin> set c" "CHR ''['' \<notin> set t"
  shows "split ''['' (c @ ''['' @ t @ '']'') = [c, t @ '']'']"
  using assms split_from_first_sep [of "CHR ''[''" c "[]" "t @ '']''"]
    split_from_no_sep [of "CHR ''[''" "t @ '']''" "[]"]
  by (simp add: split_def)

lemma rstrip_bracket:
  "CHR '']'' \<notin> set t \<Longrightarrow> rstrip (t @ '']'') '']'' = t"
  by (cases t rule: rev_cases) (auto simp: rstrip_def)

lemma basic_no_bracket:
  "t \<in> set basic_types \<Longrightarrow> CHR ''['' \<notin> set t \<and> CHR '']'' \<notin> set t"
  by (auto simp: basic_types_def)

lemma container_not_basic:
  "c @ ''['' @ t @ '']'' \<notin> set basic_types"
  using basic_no_bracket [of "c @ ''['' @ t @ '']''"] by auto

lemma check_basic: "v \<in> set basic_types \<Longrightarrow> check_param_type v = Inr v"
  by (simp add: check_param_type_def)

lemma check_container:
  assumes "c \<in> {''list'', ''set'', ''tuple''}" "CHR ''['' \<notin> set t" "CHR '']'' \<notin> set t"
  shows "check_param_type (c @ ''['' @ t @ '']'') =
           (if t \<in> set basic_types then Inr (c @ ''['' @ t @ '']'') else Inl ParamTypeInvalid)"
proof -
  have c: "CHR ''['' \<notin> set c" using assms(1) by auto
  have sp: "split ''['' (c @ ''['' @ t @ '']'') = [c, t @ '']'']"
    using split_container [OF c assms(2)] .
  have st: "startswith (c @ ''['' @ t @ '']'') ''list['' \<or> startswith (c @ ''['' @ t @ '']'') ''set[''
            \<or> startswith (c @ ''['' @ t @ '']'') ''tuple[''"
    using assms(1) by (auto simp: startswith_def)
  show ?thesis
    unfolding check_param_type_def sp
    using st container_not_basic [of c t] rstrip_bracket [OF assms(3)]
    by simp
qed

lemma check_other:
  "v \<notin> set basic_types \<Longrightarrow> \<not> startswith v ''list['' \<Longrightarrow> \<not> startswith v ''set[''
   \<Longrightarrow> \<not> startswith v ''tuple['' \<Longrightarrow> check_param_type v = Inl ParamTypeInvalid"
  by (simp add: check_param_type_def)

text \<open>
  C9, as the code has it. The primitive tags are \<open>bool\<close>, \<open>int\<close>, \<open>float\<close>, \<open>complex\<close>,
  \<open>str\<close>, \<open>bytes\<close>, \<open>tuple\<close>, \<open>list\<close>, \<open>dict\<close>, \<open>set\<close> and \<open>frozenset\<close>. Every
  primitive tag is accepted; a tag \<open>c[t]\<close> with \<open>c\<close> one of \<open>list\<close>, \<open>set\<close>, \<open>tuple\<close> and
  no bracket in \<open>t\<close> is accepted exactly when \<open>t\<close> is a primitive tag; a tag that is not
  primitive and does not start with \<open>list[\<close>, \<open>set[\<close> or \<open>tuple[\<close> is rejected.
\<close>

theorem check_param_type_accepts:
  "(v \<in> set basic_types \<longrightarrow> check_param_type v = Inr v)
   \<and> (c \<in> {''list'', ''set'', ''tuple''} \<and> CHR ''['' \<notin> set t \<and> CHR '']'' \<notin> set t \<longrightarrow>
        check_param_type (c @ ''['' @ t @ '']'') =
          (if t \<in> set basic_types then Inr (c @ ''['' @ t @ '']'') else Inl ParamTypeInvalid))
   \<and> (w \<notin> set basic_types \<and> \<not> startswith w ''list['' \<and> \<not> startswith w ''set[''
        \<and> \<not> startswith w ''tuple['' \<longrightarrow> check_param_type w = Inl ParamTypeInvalid)"
  using check_basic [of v] check_container [of c t] check_other [of w] by blast

theorem check_param_type_accepts_witness:
  "''int'' \<in> set basic_types \<and> check_param_type ''int'' = Inr ''int''
   \<and> check_param_type ''list[int]'' = Inr ''list[int]''
   \<and> check_param_type ''set[foo]'' = Inl ParamTypeInvalid
   \<and> ''dict[int]'' \<notin> set basic_types \<and> check_param_type ''dict[int]'' = Inl ParamTypeInvalid"
  using check_param_type_accepts [of "''int''" "''list''" "''int''" "''dict[int]''"]
    check_param_type_accepts [of "''int''" "''set''" "''foo''" "''dict[int]''"]
  by (simp add: basic_types_def startswith_def)

text \<open>
  The tag \<open>string\<close> of the specification's list is rejected (the code's tag is \<open>str\<close>),
  and so is a container other than \<open>list\<close>, \<open>set\<close> and \<open>tuple\<close>.
\<close>

theorem check_param_type_string_rejected:
  "check_param_type ''string'' = Inl ParamTypeInvalid
   \<and> check_param_type ''str'' = Inr ''str''
   \<and> check_param_type ''dict[int]'' = Inl ParamTypeInvalid"
  by (simp add: check_param_type_def basic_types_def startswith_def)

section \<open>Inserting a node\<close>

lemma keys_Nil: "keys [] = []"
  by (simp add: keys_def)

lemma keys_dict_set: "set (keys (dict_set d k v)) = insert k (set (keys d))"
  by (induction d k v rule: dict_set.induct) (auto simp: keys_def)

lemma distinct_dict_set: "distinct (keys d) \<Longrightarrow> distinct (keys (dict_set d k v))"
proof (induction d k v rule: dict_set.induct)
  case (1 k v)
  then show ?case by (simp add: keys_def)
next
  case (2 k' v' d k v)
  then show ?case
    using keys_dict_set [of d k v] by (auto simp: keys_def)
qed

lemma map_of_dict_set: "map_of (dict_set d k v) = (map_of d)(k \<mapsto> v)"
  by (induction d k v rule: dict_set.induct) auto

lemma scan_outputs_keys:
  "set (keys (scan_outputs needed n providers outs)) =
     set (keys providers) \<union> (set needed \<inter> param_key ` set outs)"
  by (induction needed n providers outs rule: scan_outputs.induct) (auto simp: keys_dict_set)

lemma scan_outputs_distinct:
  "distinct (keys providers) \<Longrightarrow> distinct (keys (scan_outputs needed n providers outs))"
  by (induction needed n providers outs rule: scan_outputs.induct) (auto simp: distinct_dict_set)

lemma keys_dict_set_list:
  "keys (dict_set d k v) = (if k \<in> set (keys d) then keys d else keys d @ [k])"
  by (induction d k v rule: dict_set.induct) (auto simp: keys_def)

lemma produced_Nil: "produced s [] = {}"
  by (simp add: produced_def)

lemma produced_Cons:
  "produced s ((n, r) # ns) =
     (case output_params (s r) of None \<Rightarrow> {} | Some outs \<Rightarrow> param_key ` set outs) \<union> produced s ns"
  unfolding produced_def by (cases "output_params (s r)") auto

lemma scan_nodes_keys:
  "set (keys (scan_nodes s needed providers ns)) =
     set (keys providers) \<union> (set needed \<inter> produced s ns)"
proof (induction s needed providers ns rule: scan_nodes.induct)
  case (1 s needed providers)
  then show ?case by (simp add: produced_Nil)
next
  case (2 s needed providers n existing_node rest)
  then show ?case
    by (cases "output_params (s existing_node)") (auto simp: produced_Cons scan_outputs_keys)
qed

lemma scan_nodes_distinct:
  "distinct (keys providers) \<Longrightarrow> distinct (keys (scan_nodes s needed providers ns))"
proof (induction s needed providers ns rule: scan_nodes.induct)
  case (1 s needed providers)
  then show ?case by simp
next
  case (2 s needed providers n existing_node rest)
  then show ?case
    by (cases "output_params (s existing_node)") (auto simp: scan_outputs_distinct)
qed

lemma provided_keys_produced: "provided_keys s graph = produced s (nodes graph)"
  by (simp add: provided_keys_def produced_def)

lemma providers_short:
  assumes "k \<in> set needed" "k \<notin> produced s ns"
  shows "length (scan_nodes s needed [] ns) < length needed"
proof -
  let ?P = "scan_nodes s needed [] ns"
  have d: "distinct (keys ?P)"
    by (rule scan_nodes_distinct) (simp add: keys_Nil)
  have sub: "set (keys ?P) \<subseteq> set needed - {k}"
    using assms(2) by (auto simp: scan_nodes_keys keys_Nil)
  have "length ?P = card (set (keys ?P))"
    using distinct_card [OF d] by (simp add: keys_def)
  also have "\<dots> \<le> card (set needed - {k})"
    by (rule card_mono [OF _ sub]) simp
  also have "\<dots> < card (set needed)"
    by (rule card_Diff1_less) (use assms(1) in auto)
  also have "\<dots> \<le> length needed"
    by (rule card_length)
  finally show ?thesis .
qed

text \<open>
  C2. On a graph that is not empty, \<open>add_node\<close> of a node with declared inputs raises
  \<open>MissingDependency\<close> whenever the key of one of its inputs is produced by no vertex of the
  graph, and the call leaves the graph as it was: no vertex and no edge is added.
\<close>

theorem add_node_missing_dependency:
  assumes "nodes graph \<noteq> []"
    and "input_params (s node) = Some ps"
    and "p \<in> set ps"
    and "param_key p \<notin> provided_keys s graph"
  shows "add_node s graph node_name node = (Inl MissingDependency, graph)"
proof -
  have ne: "ps \<noteq> []" using assms(3) by auto
  have needed: "input_params_needed (s node) = map param_key ps"
    using assms(2) ne by (simp add: input_params_needed_def)
  have "length (scan_nodes s (map param_key ps) [] (nodes graph)) < length (map param_key ps)"
    by (rule providers_short [of "param_key p"])
      (use assms(3,4) in \<open>auto simp: provided_keys_produced\<close>)
  then show ?thesis
    using assms(1) needed by (simp add: add_node_def Let_def)
qed

lemma provided_keys_one:
  "provided_keys s \<lparr>nodes = [(n, r)], edges = es\<rparr> =
     (case output_params (s r) of None \<Rightarrow> {} | Some outs \<Rightarrow> param_key ` set outs)"
  by (simp add: provided_keys_produced produced_Cons produced_Nil)

theorem add_node_missing_dependency_witness:
  "add_node example_store \<lparr>nodes = [(''request'', 0)], edges = []\<rparr> ''step'' 5 =
     (Inl MissingDependency, \<lparr>nodes = [(''request'', 0)], edges = []\<rparr>)"
  by (rule add_node_missing_dependency
        [where ps = "[\<lparr>param_type = ''int'', Param.name = ''z'', Param.description = ''''\<rparr>]"
           and p = "\<lparr>param_type = ''int'', Param.name = ''z'', Param.description = ''''\<rparr>"])
     (simp_all add: example_store_def consumer_z_def request_node_def provided_keys_one
        param_key_def)

lemma predecessors_new_vertex:
  assumes "well_formed graph" "v \<notin> set (keys (nodes graph))"
  shows "predecessors graph v = []"
  using assms unfolding well_formed_def predecessors_def
  by (auto simp: filter_empty_conv)

text \<open>
  C10, as the code has it. For every graph, empty or not, and every node whose
  \<open>input_params\<close> is absent or empty, whatever its name and outputs, \<open>add_node\<close> succeeds.
  The node becomes the vertex of its name: a name new to the graph is added after the
  vertices there are, a name already in the graph keeps its place and gets the node in
  the place of the one it had. Every other vertex keeps its node, and no edge is added
  or removed, so every vertex has the incoming edges it had before: none for a name new
  to a well-formed graph, and the ones it had for a name already in the graph.
\<close>

theorem add_node_without_inputs:
  assumes "input_params (s node) = None \<or> input_params (s node) = Some []"
  shows "add_node s graph node_name node = (Inr True, graph_add_node graph node_name node)
     \<and> map_of (nodes (graph_add_node graph node_name node)) node_name = Some node
     \<and> (\<forall>v. v \<noteq> node_name \<longrightarrow>
          map_of (nodes (graph_add_node graph node_name node)) v = map_of (nodes graph) v)
     \<and> keys (nodes (graph_add_node graph node_name node)) =
         (if node_name \<in> set (keys (nodes graph)) then keys (nodes graph)
          else keys (nodes graph) @ [node_name])
     \<and> edges (graph_add_node graph node_name node) = edges graph
     \<and> (\<forall>v. predecessors (graph_add_node graph node_name node) v = predecessors graph v)
     \<and> (well_formed graph \<and> node_name \<notin> set (keys (nodes graph)) \<longrightarrow>
          predecessors (graph_add_node graph node_name node) node_name = [])"
proof -
  let ?g = "graph_add_node graph node_name node"
  have needed: "input_params_needed (s node) = []"
    using assms by (auto simp: input_params_needed_def)
  have scan: "scan_nodes s [] [] ns = []" for ns
  proof -
    have "set (keys (scan_nodes s [] [] ns)) = {}"
      by (simp add: scan_nodes_keys keys_Nil)
    then show ?thesis by (simp add: keys_def)
  qed
  have run: "add_node s graph node_name node = (Inr True, ?g)"
    by (simp add: add_node_def needed scan Let_def connect.simps)
  have own: "map_of (nodes ?g) node_name = Some node"
    by (simp add: graph_add_node_def map_of_dict_set)
  have others: "\<forall>v. v \<noteq> node_name \<longrightarrow> map_of (nodes ?g) v = map_of (nodes graph) v"
    by (simp add: graph_add_node_def map_of_dict_set)
  have ks: "keys (nodes ?g) =
         (if node_name \<in> set (keys (nodes graph)) then keys (nodes graph)
          else keys (nodes graph) @ [node_name])"
    by (simp add: graph_add_node_def keys_dict_set_list)
  have e: "edges ?g = edges graph"
    by (simp add: graph_add_node_def)
  have p: "\<forall>v. predecessors ?g v = predecessors graph v"
    by (simp add: predecessors_def e)
  have fresh: "well_formed graph \<and> node_name \<notin> set (keys (nodes graph)) \<longrightarrow>
          predecessors ?g node_name = []"
    using p predecessors_new_vertex [of graph node_name] by simp
  show ?thesis
    using run own others ks e p fresh by blast
qed

lemma well_formed_scenario_graph: "well_formed scenario_graph"
  by (simp add: well_formed_def scenario_graph_def keys_def)

text \<open>
  A second start-like vertex for the scenario: the call succeeds, the vertex is added
  last and has no incoming edge, and the vertex \<open>double\<close> keeps its node and its
  incoming edge.
\<close>

theorem add_node_without_inputs_witness:
  "add_node example_store scenario_graph ''request_too'' 0 =
     (Inr True,
      \<lparr>nodes = [(''request'', 0), (''double'', 1), (''response'', 2), (''request_too'', 0)],
       edges = [((''request'', ''double''), ''x''), ((''double'', ''response''), ''y'')]\<rparr>)
   \<and> predecessors (graph_add_node scenario_graph ''request_too'' 0) ''request_too'' = []
   \<and> map_of (nodes (graph_add_node scenario_graph ''request_too'' 0)) ''double'' = Some 1
   \<and> predecessors (graph_add_node scenario_graph ''request_too'' 0) ''double'' = [''request'']"
proof -
  have hyp: "input_params (example_store 0) = None \<or> input_params (example_store 0) = Some []"
    by (simp add: example_store_def request_node_def)
  have new: "''request_too'' \<notin> set (keys (nodes scenario_graph))"
    by (simp add: scenario_graph_def keys_def)
  have g: "graph_add_node scenario_graph ''request_too'' 0 =
      \<lparr>nodes = [(''request'', 0), (''double'', 1), (''response'', 2), (''request_too'', 0)],
       edges = [((''request'', ''double''), ''x''), ((''double'', ''response''), ''y'')]\<rparr>"
    by (simp add: graph_add_node_def scenario_graph_def)
  have old: "map_of (nodes scenario_graph) ''double'' = Some 1"
    "predecessors scenario_graph ''double'' = [''request'']"
    by (simp_all add: scenario_graph_def predecessors_def keys_def)
  note inst = add_node_without_inputs [of example_store 0 scenario_graph "''request_too''", OF hyp]
  have "add_node example_store scenario_graph ''request_too'' 0 =
          (Inr True, graph_add_node scenario_graph ''request_too'' 0)"
    using inst by blast
  moreover have "predecessors (graph_add_node scenario_graph ''request_too'' 0) ''request_too'' = []"
    using inst well_formed_scenario_graph new by blast
  moreover have "map_of (nodes (graph_add_node scenario_graph ''request_too'' 0)) ''double'' = Some 1"
    using inst old(1) by simp
  moreover have "predecessors (graph_add_node scenario_graph ''request_too'' 0) ''double'' = [''request'']"
    using inst old(2) by simp
  ultimately show ?thesis unfolding g by simp
qed

text \<open>
  The start node of the scenario inserted under the name \<open>double\<close>, which the scenario
  has: the call succeeds, and the vertex holds the node and keeps its incoming edge from
  \<open>request\<close>.
\<close>

theorem add_node_existing_name_counterexample:
  "input_params (example_store 0) = None
   \<and> add_node example_store scenario_graph ''double'' 0 =
       (Inr True,
        \<lparr>nodes = [(''request'', 0), (''double'', 0), (''response'', 2)],
         edges = [((''request'', ''double''), ''x''), ((''double'', ''response''), ''y'')]\<rparr>)
   \<and> predecessors
        \<lparr>nodes = [(''request'', 0), (''double'', 0), (''response'', 2)],
         edges = [((''request'', ''double''), ''x''), ((''double'', ''response''), ''y'')]\<rparr>
        ''double'' = [''request'']"
  by (simp add: example_store_def request_node_def double_node_def response_node_def
      add_node_def scenario_graph_def input_params_needed_def graph_add_node_def
      predecessors_def keys_def Let_def)

section \<open>The depth guard of the recursive decomposition\<close>

lemma guard_trips:
  "depth > limit \<Longrightarrow>
   recursive_create_function invoke limit rd f depth defs = (Inl RecursionLimitExceeded, defs)"
  by (simp add: recursive_create_function.simps)

lemma one_child_fails:
  assumes one: "always_one_child invoke"
  shows "fst (recursive_create_function invoke limit rd f depth defs) = Inl RecursionLimitExceeded"
proof (induction "nat (limit + 1 - depth)" arbitrary: depth f defs)
  case 0
  then have "depth > limit" by simp
  then show ?case by (simp add: guard_trips)
next
  case (Suc n)
  then have le: "\<not> depth > limit" by simp
  let ?p = "\<lparr>function_name = functionName f,
             description = [CHR 0x0A] @ template f @ [CHR 0x0A, CHR 0x0A]
                           @ ''High-level Goal: '' @ rd,
             provided_functions = provided defs (functionName f),
             function_id = Some (id f)\<rparr>"
  obtain g c defs' where inv: "invoke defs ?p = (Inr g, defs')" and ch: "ChildFunction g = [c]"
    using one unfolding always_one_child_def by blast
  have "n = nat (limit + 1 - (depth + 1))" using Suc.hyps(2) by simp
  then have ih: "fst (recursive_create_function invoke limit rd c (depth + 1) defs') =
                   Inl RecursionLimitExceeded"
    by (rule Suc.hyps(1))
  then obtain d where r: "recursive_create_function invoke limit rd c (depth + 1) defs' =
                            (Inl RecursionLimitExceeded, d)"
    by (cases "recursive_create_function invoke limit rd c (depth + 1) defs'") simp
  have cc: "create_children invoke limit rd [c] (depth + 1) defs' = (Inl RecursionLimitExceeded, d)"
    by (simp add: r)
  show ?case
    using le inv ch cc
    by (simp add: recursive_create_function.simps [of invoke limit rd f depth defs])
qed

lemma one_child_route_fails:
  assumes one: "always_one_child invoke"
  shows "fst (develop_route invoke limit rd fn) = Inl RecursionLimitExceeded"
proof -
  let ?p = "\<lparr>function_name = fn, description = rd,
             provided_functions = provided [] fn, function_id = None\<rparr>"
  obtain g c defs' where inv: "invoke [] ?p = (Inr g, defs')" and ch: "ChildFunction g = [c]"
    using one unfolding always_one_child_def by blast
  obtain d where r: "recursive_create_function invoke limit rd c 0 defs' =
                            (Inl RecursionLimitExceeded, d)"
    using one_child_fails [OF one, of limit rd c 0 defs']
    by (cases "recursive_create_function invoke limit rd c 0 defs'") simp
  show ?thesis
    using inv ch r by (simp add: develop_route_def)
qed

lemma one_child_oracle_one_child: "always_one_child one_child_oracle"
  unfolding always_one_child_def one_child_oracle_def by simp

lemma chain_registry:
  "recursive_create_function one_child_oracle RECURSION_DEPTH_LIMIT rd (Function i fn t cs) 0 [] =
     (Inl RecursionLimitExceeded,
      [\<lparr>FunctionDef.name = fn, function_template = fn\<rparr>,
       \<lparr>FunctionDef.name = fn @ ''_child'', function_template = fn @ ''_child''\<rparr>,
       \<lparr>FunctionDef.name = fn @ ''_child_child'', function_template = fn @ ''_child_child''\<rparr>,
       \<lparr>FunctionDef.name = fn @ ''_child_child_child'',
         function_template = fn @ ''_child_child_child''\<rparr>])"
  by (simp add: recursive_create_function.simps one_child_oracle_def RECURSION_DEPTH_LIMIT_def)

text \<open>
  C4. \<open>recursive_create_function\<close> raises \<open>RecursionLimitExceeded\<close> when its depth exceeds
  the ceiling, before it invokes the oracle, so the registry is as it was and the function
  of that call is not registered. With an oracle that always declares exactly one child
  every call ends in that exception, from \<open>develop_route\<close> too. With the default ceiling
  3 and the synthetic one-child oracle, the call at depth 0 registers the functions of
  the depths 0 to 3 and fails in the 4th nested call, whose function is not registered.
\<close>

theorem recursion_depth_guard:
  "(depth > limit \<longrightarrow>
      recursive_create_function invoke limit rd f depth defs = (Inl RecursionLimitExceeded, defs))
   \<and> (always_one_child invoke \<longrightarrow>
        fst (recursive_create_function invoke limit rd f depth defs) = Inl RecursionLimitExceeded
        \<and> fst (develop_route invoke limit rd fn) = Inl RecursionLimitExceeded)
   \<and> recursive_create_function one_child_oracle RECURSION_DEPTH_LIMIT rd (Function i fn t cs) 0 [] =
       (Inl RecursionLimitExceeded,
        [\<lparr>FunctionDef.name = fn, function_template = fn\<rparr>,
         \<lparr>FunctionDef.name = fn @ ''_child'', function_template = fn @ ''_child''\<rparr>,
         \<lparr>FunctionDef.name = fn @ ''_child_child'', function_template = fn @ ''_child_child''\<rparr>,
         \<lparr>FunctionDef.name = fn @ ''_child_child_child'',
           function_template = fn @ ''_child_child_child''\<rparr>])"
  using guard_trips [of limit depth invoke rd f defs]
    one_child_fails [of invoke limit rd f depth defs]
    one_child_route_fails [of invoke limit rd fn]
    chain_registry [of rd i fn t cs]
  by blast

theorem recursion_depth_guard_witness:
  "recursive_create_function one_child_oracle 3 ''goal'' (Function 1 ''f'' ''t'' []) 4 [] =
     (Inl RecursionLimitExceeded, [])
   \<and> always_one_child one_child_oracle
   \<and> fst (recursive_create_function one_child_oracle 3 ''goal'' (Function 1 ''f'' ''t'' []) 4 []) =
       Inl RecursionLimitExceeded
   \<and> fst (develop_route one_child_oracle 3 ''goal'' ''f'') = Inl RecursionLimitExceeded"
  using recursion_depth_guard
    [of 3 4 one_child_oracle "''goal''" "Function 1 ''f'' ''t'' []" "[]" "''f''" 1 "''t''" "[]"]
    one_child_oracle_one_child
  by simp

section \<open>The derived function name and the emissions\<close>

lemma replace_char: "replace [a] [b] s = map (\<lambda>c. if c = a then b else c) s"
  by (induction s) (auto simp: startswith_def)

lemma replace_remove: "replace [a] [] s = filter (\<lambda>c. c \<noteq> a) s"
  by (induction s) (auto simp: startswith_def)

lemma derive_function_name_eq:
  "derive_function_name n = lower (strip (underscored_unslashed n)) @ ''_request''"
proof -
  have "map (\<lambda>c. if c = CHR ''-'' then CHR ''_'' else c)
          (map (\<lambda>c. if c = CHR '' '' then CHR ''_'' else c) n) =
        map (\<lambda>c. if c = CHR '' '' \<or> c = CHR ''-'' then CHR ''_'' else c) n"
    by (induction n) auto
  then show ?thesis
    by (simp only: derive_function_name_def underscored_unslashed_def replace_char replace_remove)
qed

lemma dropWhile_hd: "xs \<noteq> [] \<Longrightarrow> \<not> P (hd xs) \<Longrightarrow> dropWhile P xs = xs"
  by (cases xs) auto

lemma strip_id:
  assumes "s = [] \<or> (\<not> isspace (hd s) \<and> \<not> isspace (last s))"
  shows "strip s = s"
proof (cases "s = []")
  case True
  then show ?thesis by (simp add: strip_def)
next
  case False
  then have h: "\<not> isspace (hd s)" and l: "\<not> isspace (last s)" using assms by auto
  have 1: "dropWhile isspace s = s" using False h by (rule dropWhile_hd)
  have "hd (rev s) = last s" using False by (simp add: hd_rev)
  then have 2: "dropWhile isspace (rev s) = rev s"
    using False l dropWhile_hd [of "rev s" isspace] by simp
  show ?thesis by (simp add: strip_def 1 2)
qed

lemma no_space_strip:
  assumes "\<forall>c \<in> set n. isspace c \<longrightarrow> c = CHR '' ''"
  shows "strip (underscored_unslashed n) = underscored_unslashed n"
proof -
  have ns: "\<not> isspace c" if "c \<in> set (underscored_unslashed n)" for c
  proof -
    have u: "\<not> isspace (CHR ''_'')" by (simp add: isspace_def)
    from that have "c \<in> (\<lambda>d. if d = CHR '' '' \<or> d = CHR ''-'' then CHR ''_'' else d) ` set n"
      by (simp add: underscored_unslashed_def)
    then obtain d where d: "d \<in> set n"
      and c: "c = (if d = CHR '' '' \<or> d = CHR ''-'' then CHR ''_'' else d)"
      by blast
    show ?thesis
    proof (cases "d = CHR '' '' \<or> d = CHR ''-''")
      case True
      then show ?thesis using c u by simp
    next
      case False
      then show ?thesis using c d assms by auto
    qed
  qed
  show ?thesis
  proof (rule strip_id, cases "underscored_unslashed n = []")
    case True
    then show "underscored_unslashed n = [] \<or>
       (\<not> isspace (hd (underscored_unslashed n)) \<and> \<not> isspace (last (underscored_unslashed n)))"
      by simp
  next
    case False
    then show "underscored_unslashed n = [] \<or>
       (\<not> isspace (hd (underscored_unslashed n)) \<and> \<not> isspace (last (underscored_unslashed n)))"
      using ns by simp
  qed
qed

lemma emit_node_store:
  "snd (emit_node nm fname st s n r) =
     (if kind_of n = Header then s(r := (s r)\<lparr>Node.name := fname\<rparr>) else s)"
  by (cases "to_code nm (s r) (output_name_map st)")
     (simp add: emit_node_def kind_of_def Let_def)

lemma emit_node_step:
  "emissions (fst (emit_node nm fname st s n r)) =
     emissions st @ [\<lparr>kind = kind_of n, vertex = n,
                      text_emitted = emission_text nm fname (kind_of n) (s r) (output_name_map st)\<rparr>]
   \<and> graph_script (fst (emit_node nm fname st s n r)) =
     graph_script st @ emission_text nm fname (kind_of n) (s r) (output_name_map st)"
  by (cases "to_code nm (s r) (output_name_map st)")
     (simp add: emit_node_def kind_of_def Let_def)

lemma emit_nodes_append:
  "emit_nodes nm fname graph st s (xs @ ys) =
     (case emit_nodes nm fname graph st s xs of
        (Inl e, s1) \<Rightarrow> (Inl e, s1)
      | (Inr st1, s1) \<Rightarrow> emit_nodes nm fname graph st1 s1 ys)"
proof (induction xs arbitrary: st s)
  case Nil
  then show ?case by simp
next
  case (Cons x xs)
  show ?case
  proof (cases "map_of (nodes graph) x")
    case None
    then show ?thesis by simp
  next
    case (Some r)
    obtain st1 s1 where e: "emit_node nm fname st s x r = (st1, s1)"
      by (cases "emit_node nm fname st s x r") auto
    show ?thesis using Some e Cons.IH [of st1 s1] by simp
  qed
qed

lemma emit_nodes_last:
  assumes "emit_nodes nm fname graph st s (xs @ [x]) = (Inr st', s')"
  shows "\<exists>st1 s1 r. emit_nodes nm fname graph st s xs = (Inr st1, s1)
           \<and> map_of (nodes graph) x = Some r
           \<and> emit_node nm fname st1 s1 x r = (st', s')"
proof -
  obtain out s1 where xs: "emit_nodes nm fname graph st s xs = (out, s1)"
    by (cases "emit_nodes nm fname graph st s xs") auto
  show ?thesis
  proof (cases out)
    case (Inl e)
    then show ?thesis using assms xs by (simp add: emit_nodes_append)
  next
    case (Inr st1)
    then have one: "emit_nodes nm fname graph st1 s1 [x] = (Inr st', s')"
      using assms xs by (simp add: emit_nodes_append)
    then obtain r where r: "map_of (nodes graph) x = Some r"
      by (cases "map_of (nodes graph) x") auto
    have "emit_node nm fname st1 s1 x r = (st', s')"
      using one r by (cases "emit_node nm fname st1 s1 x r") auto
    then show ?thesis using xs Inr r by simp
  qed
qed

lemma renamed_empty: "renamed s fname {} = s"
  by (simp add: renamed_def)

lemma renamed_insert:
  "(renamed s fname rs)(r := (renamed s fname rs r)\<lparr>Node.name := fname\<rparr>) =
     renamed s fname (insert r rs)"
  by (rule ext) (simp add: renamed_def)

lemma renamed_rename:
  "(renamed s fname rs r)\<lparr>Node.name := fname\<rparr> = (s r)\<lparr>Node.name := fname\<rparr>"
  by (simp add: renamed_def)

lemma header_refs_Nil: "header_refs graph [] = {}"
  by (simp add: header_refs_def)

lemma header_refs_snoc:
  assumes "map_of (nodes graph) x = Some r"
  shows "header_refs graph (xs @ [x]) =
     (if kind_of x = Header then insert r (header_refs graph xs) else header_refs graph xs)"
  using assms by (auto simp: header_refs_def)

text \<open>
  The store after the loop has gone over \<open>order\<close>: the objects of the vertices that got
  a header carry the derived name, every other object is as it was.
\<close>

lemma emit_nodes_store:
  assumes "emit_nodes nm fname graph st s order = (Inr st', s')"
  shows "s' = renamed s fname (header_refs graph order)"
  using assms
proof (induction order arbitrary: st' s' rule: rev_induct)
  case Nil
  then show ?case by (simp add: header_refs_Nil renamed_empty)
next
  case (snoc x xs)
  obtain st1 s1 r where xs: "emit_nodes nm fname graph st s xs = (Inr st1, s1)"
    and r: "map_of (nodes graph) x = Some r"
    and e: "emit_node nm fname st1 s1 x r = (st', s')"
    using emit_nodes_last [OF snoc.prems] by blast
  have s1: "s1 = renamed s fname (header_refs graph xs)" by (rule snoc.IH [OF xs])
  have "s' = (if kind_of x = Header then s1(r := (s1 r)\<lparr>Node.name := fname\<rparr>) else s1)"
    using emit_node_store [of nm fname st1 s1 x r] e by simp
  then show ?case
    unfolding s1 header_refs_snoc [OF r] by (simp add: renamed_insert)
qed

text \<open>
  The emissions of the loop over \<open>order\<close>: one per vertex, the \<open>i\<close>-th of the kind of the
  \<open>i\<close>-th vertex and with the text that the method of that kind returns on the vertex's
  object and the map of the output names, both as the first \<open>i\<close> vertices leave them.
\<close>

lemma emit_nodes_trace:
  assumes "emit_nodes nm fname graph st s order = (Inr st', s')"
  shows "\<exists>new. emissions st' = emissions st @ new
    \<and> length new = length order
    \<and> graph_script st' = graph_script st @ concat (map text_emitted new)
    \<and> (\<forall>i < length order. \<exists>st_i s_i r.
          emit_nodes nm fname graph st s (take i order) = (Inr st_i, s_i)
          \<and> map_of (nodes graph) (order ! i) = Some r
          \<and> new ! i = \<lparr>kind = kind_of (order ! i), vertex = order ! i,
                       text_emitted =
                         emission_text nm fname (kind_of (order ! i)) (s_i r) (output_name_map st_i)\<rparr>)"
  using assms
proof (induction order arbitrary: st' s' rule: rev_induct)
  case Nil
  then show ?case by simp
next
  case (snoc x xs)
  obtain st1 s1 r where xs: "emit_nodes nm fname graph st s xs = (Inr st1, s1)"
    and r: "map_of (nodes graph) x = Some r"
    and e: "emit_node nm fname st1 s1 x r = (st', s')"
    using emit_nodes_last [OF snoc.prems] by blast
  obtain new where n1: "emissions st1 = emissions st @ new"
    and n2: "length new = length xs"
    and n3: "graph_script st1 = graph_script st @ concat (map text_emitted new)"
    and n4: "\<forall>i < length xs. \<exists>st_i s_i r.
          emit_nodes nm fname graph st s (take i xs) = (Inr st_i, s_i)
          \<and> map_of (nodes graph) (xs ! i) = Some r
          \<and> new ! i = \<lparr>kind = kind_of (xs ! i), vertex = xs ! i,
                       text_emitted =
                         emission_text nm fname (kind_of (xs ! i)) (s_i r) (output_name_map st_i)\<rparr>"
    using snoc.IH [OF xs] by (elim exE conjE) (rule that)
  let ?e = "\<lparr>kind = kind_of x, vertex = x,
             text_emitted = emission_text nm fname (kind_of x) (s1 r) (output_name_map st1)\<rparr>"
  have st': "st' = fst (emit_node nm fname st1 s1 x r)" using e by simp
  have m1: "emissions st' = emissions st @ (new @ [?e])"
    using emit_node_step [of nm fname st1 s1 x r] n1 unfolding st' by simp
  have m2: "length (new @ [?e]) = length (xs @ [x])" using n2 by simp
  have m3: "graph_script st' = graph_script st @ concat (map text_emitted (new @ [?e]))"
    using emit_node_step [of nm fname st1 s1 x r] n3 unfolding st' by simp
  have m4: "\<forall>i < length (xs @ [x]). \<exists>st_i s_i r.
          emit_nodes nm fname graph st s (take i (xs @ [x])) = (Inr st_i, s_i)
          \<and> map_of (nodes graph) ((xs @ [x]) ! i) = Some r
          \<and> (new @ [?e]) ! i = \<lparr>kind = kind_of ((xs @ [x]) ! i), vertex = (xs @ [x]) ! i,
                       text_emitted =
                         emission_text nm fname (kind_of ((xs @ [x]) ! i)) (s_i r)
                           (output_name_map st_i)\<rparr>"
  proof (intro allI impI)
    fix i
    assume i: "i < length (xs @ [x])"
    show "\<exists>st_i s_i r.
          emit_nodes nm fname graph st s (take i (xs @ [x])) = (Inr st_i, s_i)
          \<and> map_of (nodes graph) ((xs @ [x]) ! i) = Some r
          \<and> (new @ [?e]) ! i = \<lparr>kind = kind_of ((xs @ [x]) ! i), vertex = (xs @ [x]) ! i,
                       text_emitted =
                         emission_text nm fname (kind_of ((xs @ [x]) ! i)) (s_i r)
                           (output_name_map st_i)\<rparr>"
    proof (cases "i < length xs")
      case True
      then show ?thesis using n4 n2 by (simp add: nth_append)
    next
      case False
      then have "i = length xs" using i by simp
      then show ?thesis using xs r n2 by (simp add: nth_append)
    qed
  qed
  show ?case
    by (rule exI [of _ "new @ [?e]"]) (intro conjI m1 m2 m3 m4)
qed

lemma emit_node_files:
  "python_file (fst (emit_node nm fname st s n r)) =
     python_file st @ (if kind_of n = CallSite then [CHR 0x0A] @ Node.code (s r) @ [CHR 0x0A] else [])
   \<and> requirements (fst (emit_node nm fname st s n r)) = requirements st @ required_packages (s r)"
  by (cases "to_code nm (s r) (output_name_map st)")
     (simp add: emit_node_def kind_of_def Let_def)

text \<open>
  \<open>python_file\<close> and \<open>requirements\<close> after the loop has gone over \<open>order\<close>: the write to
  the name of a node changes neither its code nor its packages.
\<close>

lemma emit_nodes_files:
  assumes "emit_nodes nm fname graph st s order = (Inr st', s')"
  shows "python_file st' = python_file st @ concat (map (preamble_of s graph) order)
    \<and> requirements st' = requirements st @ concat (map (packages_of s graph) order)"
  using assms
proof (induction order arbitrary: st' s' rule: rev_induct)
  case Nil
  then show ?case by simp
next
  case (snoc x xs)
  obtain st1 s1 r where xs: "emit_nodes nm fname graph st s xs = (Inr st1, s1)"
    and r: "map_of (nodes graph) x = Some r"
    and e: "emit_node nm fname st1 s1 x r = (st', s')"
    using emit_nodes_last [OF snoc.prems] by blast
  have s1: "s1 = renamed s fname (header_refs graph xs)" by (rule emit_nodes_store [OF xs])
  have same: "Node.code (s1 r) = Node.code (s r)" "required_packages (s1 r) = required_packages (s r)"
    unfolding s1 by (simp_all add: renamed_def)
  have st': "st' = fst (emit_node nm fname st1 s1 x r)" using e by simp
  show ?case
    using snoc.IH [OF xs] emit_node_files [of nm fname st1 s1 x r] r same
    unfolding st' by (simp add: preamble_of_def packages_of_def)
qed

lemma emit_nodes_total:
  "set order \<subseteq> set (keys (nodes graph)) \<Longrightarrow>
   \<exists>st' s'. emit_nodes nm fname graph st s order = (Inr st', s')"
proof (induction order arbitrary: st s)
  case Nil
  then show ?case by simp
next
  case (Cons n order)
  then have "n \<in> fst ` set (nodes graph)" by (simp add: keys_def)
  then obtain r where r: "map_of (nodes graph) n = Some r"
    by (metis weak_map_of_SomeI map_of_eq_None_iff not_Some_eq)
  obtain st1 s1 where e: "emit_node nm fname st s n r = (st1, s1)"
    by (cases "emit_node nm fname st s n r") auto
  show ?case using Cons.IH [of st1 s1] Cons.prems r e by simp
qed

lemma compile_graph_function_name:
  "compile_graph nm fmt s graph ep = (Inr fd, s') \<Longrightarrow>
   FunctionData.function_name fd = derive_function_name (ExecutionPath.name ep)"
  by (auto simp: compile_graph_def split: sum.splits prod.splits)

section \<open>Compiling: the function name and the formatter\<close>

lemma scenario_graph_built:
  "add_node example_store
     (snd (add_node example_store
             (snd (add_node example_store \<lparr>nodes = [], edges = []\<rparr> ''request'' 0))
             ''double'' 1))
     ''response'' 2 = (Inr True, scenario_graph)"
  by (simp add: add_node_def graph_add_node_def graph_add_edge_def input_params_needed_def
      param_key_def example_store_def request_node_def double_node_def response_node_def
      scenario_graph_def Let_def)

lemma scenario_loop:
  "fst (compile_loop plain_methods example_store scenario_graph scenario_path) = Inr scenario_state"
  by code_simp

lemma scenario_loop_store:
  "Node.name (snd (compile_loop plain_methods example_store scenario_graph scenario_path) 0) =
     ''double_it_request''"
  by code_simp

lemma scenario_refactored:
  "refactor_imports (python_file scenario_state @ [CHR 0x0A] @ graph_script scenario_state) =
     Inr scenario_source"
  by code_simp

lemma scenario_compiled:
  "fst (compile_graph plain_methods plain_formatters example_store scenario_graph scenario_path) =
     Inr \<lparr>FunctionData.function_name = ''double_it_request'', code = scenario_source,
          requirements_txt = ''requests==2.0'', endpoint_name = ''/double''\<rparr>"
  by code_simp

lemma scenario_rejected:
  "fst (compile_graph plain_methods rejecting_formatters example_store scenario_graph scenario_path) =
     Inl UnparsableSource"
  by code_simp

text \<open>
  One object under two vertices: the header of the first vertex writes the derived name
  to the object, and the call site of the second vertex reads it.
\<close>

lemma shared_object_loop:
  "map text_emitted
     (case fst (compile_loop plain_methods example_store shared_object_graph scenario_path) of
        Inl e \<Rightarrow> [] | Inr st \<Rightarrow> emissions st) =
     [''def double_it_request():'' @ [CHR 0x0A], ''    double_it_request()'' @ [CHR 0x0A]]"
  by code_simp

lemma compile_loop_run:
  assumes "compile_loop nm s graph ep = (Inr st, s')"
  shows "\<exists>order. topological_sort graph = Inr order
    \<and> emit_nodes nm (derive_function_name (ExecutionPath.name ep)) graph initial_state s order =
        (Inr st, s')"
  using assms by (auto simp: compile_loop_def split: sum.splits if_splits)

lemma header_emissions:
  assumes "emit_nodes nm fname graph initial_state s order = (Inr st, s')"
    and "e \<in> set (emissions st)" and "kind e = Header"
  shows "\<exists>r. map_of (nodes graph) (vertex e) = Some r
           \<and> text_emitted e = request_to_code nm ((s r)\<lparr>Node.name := fname\<rparr>)
           \<and> Node.name (s' r) = fname"
proof -
  obtain new where n1: "emissions st = emissions initial_state @ new"
    and n2: "length new = length order"
    and n4: "\<forall>i < length order. \<exists>st_i s_i r.
          emit_nodes nm fname graph initial_state s (take i order) = (Inr st_i, s_i)
          \<and> map_of (nodes graph) (order ! i) = Some r
          \<and> new ! i = \<lparr>kind = kind_of (order ! i), vertex = order ! i,
                       text_emitted =
                         emission_text nm fname (kind_of (order ! i)) (s_i r) (output_name_map st_i)\<rparr>"
    using emit_nodes_trace [OF assms(1)] by (elim exE conjE) (rule that)
  have "e \<in> set new" using assms(2) n1 by (simp add: initial_state_def)
  then obtain i where i: "i < length order" and ei: "new ! i = e"
    using n2 by (auto simp: in_set_conv_nth)
  obtain st_i s_i r where pre: "emit_nodes nm fname graph initial_state s (take i order) = (Inr st_i, s_i)"
    and r: "map_of (nodes graph) (order ! i) = Some r"
    and row: "e = \<lparr>kind = kind_of (order ! i), vertex = order ! i,
                   text_emitted =
                     emission_text nm fname (kind_of (order ! i)) (s_i r) (output_name_map st_i)\<rparr>"
    using n4 i ei by auto
  have k: "kind_of (order ! i) = Header" using assms(3) row by simp
  have v: "vertex e = order ! i" using row by simp
  have s_i: "s_i = renamed s fname (header_refs graph (take i order))"
    by (rule emit_nodes_store [OF pre])
  have t: "text_emitted e = request_to_code nm ((s r)\<lparr>Node.name := fname\<rparr>)"
    using row k unfolding s_i by (simp add: renamed_rename)
  have "r \<in> header_refs graph order"
    using i k r unfolding header_refs_def by auto
  then have "Node.name (s' r) = fname"
    unfolding emit_nodes_store [OF assms(1)] by (simp add: renamed_def)
  then show ?thesis using r t v by simp
qed

lemma generate_requirements_txt_total: "\<exists>manifest. generate_requirements_txt packages = Inr manifest"
  by (simp add: generate_requirements_txt_def requirements_of_aggregate)

lemma compile_graph_after_loop:
  assumes "compile_loop nm s graph ep = (Inr st, s')"
  shows "compile_graph nm fmt s graph ep =
     (case refactor_imports (python_file st @ [CHR 0x0A] @ graph_script st) of
        Inl e \<Rightarrow> (Inl e, s')
      | Inr refactored \<Rightarrow>
          (case format_and_sort_code fmt refactored of
             Inl e \<Rightarrow> (Inl e, s')
           | Inr code' \<Rightarrow>
               (Inr \<lparr>FunctionData.function_name = derive_function_name (ExecutionPath.name ep),
                     code = code',
                     requirements_txt =
                       join [CHR 0x0A]
                         (map (\<lambda>n. requirement n (first_seen_pair (requirements st) n))
                            (first_seen_names (map package_name (requirements st)))),
                     endpoint_name = ExecutionPath.endpoint_name ep\<rparr>, s')))"
  using assms by (simp add: compile_graph_def generate_requirements_txt_def requirements_of_aggregate)

lemma compile_graph_loop:
  "compile_graph nm fmt s graph ep = (Inr fd, s') \<Longrightarrow>
   \<exists>st. compile_loop nm s graph ep = (Inr st, s')"
  by (auto simp: compile_graph_def split: sum.splits prod.splits)

text \<open>
  C8, as the code has it. The name of the synthesized function is the route name with
  every space and hyphen replaced by an underscore and the slashes removed, then stripped
  of leading and trailing whitespace, then lowercased, with \<open>_request\<close> appended; for a
  route name whose only whitespace is the space this is the name in the words of the
  specification. It is the \<open>function_name\<close> of the result of \<open>compile_graph\<close>; every
  header emitted is \<open>request_to_code\<close> of the vertex's node with its \<open>name\<close> set to it,
  and the node carries that name when \<open>compile_graph\<close> returns.
\<close>

theorem function_name_derivation:
  "derive_function_name n = lower (strip (underscored_unslashed n)) @ ''_request''
   \<and> ((\<forall>c \<in> set n. isspace c \<longrightarrow> c = CHR '' '') \<longrightarrow> derive_function_name n = spec_function_name n)
   \<and> (compile_graph nm fmt s graph ep = (Inr fd, s') \<longrightarrow>
        FunctionData.function_name fd = derive_function_name (ExecutionPath.name ep)
        \<and> (\<exists>st. compile_loop nm s graph ep = (Inr st, s') \<and>
              (\<forall>e \<in> set (emissions st). kind e = Header \<longrightarrow>
                 (\<exists>r. map_of (nodes graph) (vertex e) = Some r \<and>
                    text_emitted e =
                      request_to_code nm
                        ((s r)\<lparr>Node.name := derive_function_name (ExecutionPath.name ep)\<rparr>)
                    \<and> Node.name (s' r) = derive_function_name (ExecutionPath.name ep)))))"
proof (intro conjI impI)
  show "derive_function_name n = lower (strip (underscored_unslashed n)) @ ''_request''"
    by (rule derive_function_name_eq)
next
  assume "\<forall>c \<in> set n. isspace c \<longrightarrow> c = CHR '' ''"
  then show "derive_function_name n = spec_function_name n"
    by (simp add: derive_function_name_eq no_space_strip spec_function_name_def)
next
  assume "compile_graph nm fmt s graph ep = (Inr fd, s')"
  then show "FunctionData.function_name fd = derive_function_name (ExecutionPath.name ep)"
    by (rule compile_graph_function_name)
next
  assume "compile_graph nm fmt s graph ep = (Inr fd, s')"
  then obtain st where st: "compile_loop nm s graph ep = (Inr st, s')"
    using compile_graph_loop by blast
  obtain order where run:
    "emit_nodes nm (derive_function_name (ExecutionPath.name ep)) graph initial_state s order =
       (Inr st, s')"
    using compile_loop_run [OF st] by blast
  show "\<exists>st. compile_loop nm s graph ep = (Inr st, s') \<and>
              (\<forall>e \<in> set (emissions st). kind e = Header \<longrightarrow>
                 (\<exists>r. map_of (nodes graph) (vertex e) = Some r \<and>
                    text_emitted e =
                      request_to_code nm
                        ((s r)\<lparr>Node.name := derive_function_name (ExecutionPath.name ep)\<rparr>)
                    \<and> Node.name (s' r) = derive_function_name (ExecutionPath.name ep)))"
    using st header_emissions [OF run] by blast
qed

theorem function_name_derivation_witness:
  "derive_function_name ''Double It'' = ''double_it_request''
   \<and> spec_function_name ''Double It'' = ''double_it_request''
   \<and> fst (compile_graph plain_methods plain_formatters example_store scenario_graph scenario_path) =
       Inr \<lparr>FunctionData.function_name = ''double_it_request'', code = scenario_source,
            requirements_txt = ''requests==2.0'', endpoint_name = ''/double''\<rparr>
   \<and> map text_emitted (filter (\<lambda>e. kind e = Header) (emissions scenario_state)) =
       [request_to_code plain_methods (request_node\<lparr>Node.name := ''double_it_request''\<rparr>)]
   \<and> Node.name
       (snd (compile_graph plain_methods plain_formatters example_store scenario_graph scenario_path) 0) =
       ''double_it_request''"
proof -
  let ?fd = "\<lparr>FunctionData.function_name = ''double_it_request'', code = scenario_source,
              requirements_txt = ''requests==2.0'', endpoint_name = ''/double''\<rparr>"
  let ?run = "compile_graph plain_methods plain_formatters example_store scenario_graph scenario_path"
  have sp: "\<forall>c \<in> set ''Double It''. isspace c \<longrightarrow> c = CHR '' ''"
    by (simp add: isspace_def)
  have compiled: "?run = (Inr ?fd, snd ?run)"
    using scenario_compiled by (cases ?run) simp
  note inst = function_name_derivation
      [of "''Double It''" plain_methods plain_formatters example_store scenario_graph
         scenario_path ?fd "snd ?run"]
  have spec: "spec_function_name ''Double It'' = ''double_it_request''"
    by code_simp
  have "derive_function_name ''Double It'' = spec_function_name ''Double It''"
    using inst sp by blast
  then have name: "derive_function_name ''Double It'' = ''double_it_request''"
    using spec by simp
  have fn: "FunctionData.function_name ?fd = derive_function_name (ExecutionPath.name scenario_path)"
    using inst compiled by blast
  obtain st where st: "compile_loop plain_methods example_store scenario_graph scenario_path =
                         (Inr st, snd ?run)"
    and hd: "\<forall>e \<in> set (emissions st). kind e = Header \<longrightarrow>
               (\<exists>r. map_of (nodes scenario_graph) (vertex e) = Some r \<and>
                  text_emitted e =
                    request_to_code plain_methods
                      ((example_store r)\<lparr>Node.name := derive_function_name (ExecutionPath.name scenario_path)\<rparr>)
                  \<and> Node.name (snd ?run r) = derive_function_name (ExecutionPath.name scenario_path))"
    using inst compiled by blast
  have st_eq: "st = scenario_state" using st scenario_loop by simp
  have dn: "derive_function_name (ExecutionPath.name scenario_path) = ''double_it_request''"
    using fn by simp
  let ?h = "\<lparr>kind = Header, vertex = ''request'',
             text_emitted = ''def double_it_request():'' @ [CHR 0x0A]\<rparr>"
  have "?h \<in> set (emissions st)" by (simp add: st_eq scenario_state_def)
  then obtain r where r: "map_of (nodes scenario_graph) ''request'' = Some r"
    and piece: "text_emitted ?h =
        request_to_code plain_methods ((example_store r)\<lparr>Node.name := ''double_it_request''\<rparr>)"
    and stored: "Node.name (snd ?run r) = ''double_it_request''"
    using hd dn by fastforce
  have r0: "r = 0" using r by (simp add: scenario_graph_def)
  have "example_store r = request_node" unfolding r0 by (simp add: example_store_def)
  then have "map text_emitted (filter (\<lambda>e. kind e = Header) (emissions scenario_state)) =
       [request_to_code plain_methods (request_node\<lparr>Node.name := ''double_it_request''\<rparr>)]"
    using piece by (simp add: scenario_state_def)
  then show ?thesis using name spec scenario_compiled stored unfolding r0 by simp
qed

text \<open>
  A route name that ends in a line feed: the code strips it, the normalization in the
  words of the specification keeps it.
\<close>

theorem function_name_strip_counterexample:
  "fst (compile_graph plain_methods plain_formatters example_store \<lparr>nodes = [], edges = []\<rparr>
     \<lparr>ExecutionPath.name = ''Get User'' @ [CHR 0x0A], ExecutionPath.endpoint_name = ''/user''\<rparr>) =
     Inr \<lparr>FunctionData.function_name = ''get_user_request'',
          code = [CHR 0x0A, CHR 0x0A, CHR 0x0A], requirements_txt = [],
          endpoint_name = ''/user''\<rparr>
   \<and> spec_function_name (''Get User'' @ [CHR 0x0A]) = ''get_user'' @ [CHR 0x0A] @ ''_request''"
  by code_simp

text \<open>
  C6, as the code has it. \<open>format_and_sort_code\<close> has no handler: an exception of
  \<open>isort.code\<close> or of \<open>black.format_str\<close> is the exception of \<open>format_and_sort_code\<close>, and
  when the formatting of the refactored source raises, \<open>compile_graph\<close> raises the same
  exception and returns no \<open>FunctionData\<close>.
\<close>

theorem formatter_failure_propagates:
  "((isort_code fmt src = Inl e
      \<or> (\<exists>sorted_content. isort_code fmt src = Inr sorted_content
             \<and> black_format_str fmt sorted_content = Inl e)) \<longrightarrow>
     format_and_sort_code fmt src = Inl e)
   \<and> (compile_loop nm s graph ep = (Inr st, s')
        \<and> refactor_imports (python_file st @ [CHR 0x0A] @ graph_script st) = Inr src
        \<and> format_and_sort_code fmt src = Inl e \<longrightarrow>
        compile_graph nm fmt s graph ep = (Inl e, s'))"
  using compile_graph_after_loop [of nm s graph ep st s' fmt]
  by (auto simp: format_and_sort_code_def)

theorem formatter_failure_propagates_witness:
  "isort_code rejecting_formatters scenario_source = Inr scenario_source
   \<and> black_format_str rejecting_formatters scenario_source = Inl UnparsableSource
   \<and> format_and_sort_code rejecting_formatters scenario_source = Inl UnparsableSource
   \<and> fst (compile_loop plain_methods example_store scenario_graph scenario_path) = Inr scenario_state
   \<and> refactor_imports (python_file scenario_state @ [CHR 0x0A] @ graph_script scenario_state) =
       Inr scenario_source
   \<and> fst (compile_graph plain_methods rejecting_formatters example_store scenario_graph scenario_path) =
       Inl UnparsableSource"
proof -
  let ?loop = "compile_loop plain_methods example_store scenario_graph scenario_path"
  have i: "isort_code rejecting_formatters scenario_source = Inr scenario_source"
    and b: "black_format_str rejecting_formatters scenario_source = Inl UnparsableSource"
    by (simp_all add: rejecting_formatters_def)
  have loop: "?loop = (Inr scenario_state, snd ?loop)"
    using scenario_loop by (cases ?loop) simp
  note inst = formatter_failure_propagates
      [of rejecting_formatters scenario_source UnparsableSource plain_methods example_store
         scenario_graph scenario_path scenario_state "snd ?loop"]
  have f: "format_and_sort_code rejecting_formatters scenario_source = Inl UnparsableSource"
    using inst i b by blast
  have "compile_graph plain_methods rejecting_formatters example_store scenario_graph scenario_path =
       (Inl UnparsableSource, snd ?loop)"
    using inst f loop scenario_refactored by blast
  then show ?thesis using i b f scenario_loop scenario_refactored by simp
qed

text \<open>
  The scenario graph with a formatter that cannot parse the assembled source:
  \<open>compile_graph\<close> raises, it does not return the unformatted code.
\<close>

theorem formatter_failure_counterexample:
  "fst (compile_graph plain_methods rejecting_formatters example_store scenario_graph scenario_path) =
     Inl UnparsableSource"
  by (rule scenario_rejected)

section \<open>The topological sort\<close>

lemma map_of_dict_del: "map_of (dict_del m c) = (map_of m)(c := None)"
  unfolding dict_del_def by (induction m) (auto simp: fun_eq_iff)

lemma keys_dict_del: "set (keys (dict_del m c)) = set (keys m) - {c}"
  unfolding dict_del_def keys_def by auto

lemma distinct_dict_del: "distinct (keys m) \<Longrightarrow> distinct (keys (dict_del m c))"
  unfolding dict_del_def keys_def by (simp add: distinct_map_filter)

lemma map_of_keys: "map_of m v \<noteq> None \<longleftrightarrow> v \<in> set (keys m)"
  by (simp add: keys_def map_of_eq_None_iff)

lemma relax_children_append:
  "relax_children st (xs @ ys) =
     (case relax_children st xs of Inl e \<Rightarrow> Inl e | Inr st' \<Rightarrow> relax_children st' ys)"
  by (induction st xs rule: relax_children.induct) (auto split: option.splits)

lemma relax_children_spec:
  assumes "distinct (keys m)"
    and "\<forall>c \<in> set cs. \<exists>d. map_of m c = Some d \<and> int (count_list cs c) \<le> d"
  shows "\<exists>m' zs'. relax_children (m, zs) cs = Inr (m', zs') \<and> distinct (keys m')
    \<and> (\<forall>v. map_of m' v =
          (case map_of m v of
             None \<Rightarrow> None
           | Some d \<Rightarrow> if v \<in> set cs \<and> d = int (count_list cs v) then None
                       else Some (d - int (count_list cs v))))
    \<and> set zs' = set zs \<union> {v \<in> set cs. map_of m v = Some (int (count_list cs v))}
    \<and> (distinct zs \<and> set zs \<inter> set (keys m) = {} \<longrightarrow> distinct zs')"
  using assms
proof (induction cs arbitrary: m zs)
  case Nil
  then show ?case by (auto split: option.splits)
next
  case (Cons c rest)
  from Cons.prems(2) obtain d where d: "map_of m c = Some d"
    and dc: "1 + int (count_list rest c) \<le> d"
    by auto
  have ckey: "c \<in> set (keys m)" using d map_of_keys [of m c] by simp
  show ?case
  proof (cases "d - 1 = 0")
    case True
    then have d1: "d = 1" by simp
    then have "count_list rest c = 0" using dc by simp
    then have notin: "c \<notin> set rest" by (simp add: count_list_0_iff)
    let ?m1 = "dict_del m c"
    have dist1: "distinct (keys ?m1)" using Cons.prems(1) by (rule distinct_dict_del)
    have pre1: "\<forall>c' \<in> set rest. \<exists>d'. map_of ?m1 c' = Some d' \<and> int (count_list rest c') \<le> d'"
    proof
      fix c' assume c': "c' \<in> set rest"
      then have ne: "c' \<noteq> c" using notin by auto
      from Cons.prems(2) c' obtain d' where "map_of m c' = Some d'"
        and "int (count_list (c # rest) c') \<le> d'" by auto
      then show "\<exists>d'. map_of ?m1 c' = Some d' \<and> int (count_list rest c') \<le> d'"
        using ne by (simp add: map_of_dict_del)
    qed
    obtain m' zs' where run: "relax_children (?m1, zs @ [c]) rest = Inr (m', zs')"
      and dm': "distinct (keys m')"
      and mo: "\<forall>v. map_of m' v =
          (case map_of ?m1 v of
             None \<Rightarrow> None
           | Some d \<Rightarrow> if v \<in> set rest \<and> d = int (count_list rest v) then None
                       else Some (d - int (count_list rest v)))"
      and zs: "set zs' = set (zs @ [c]) \<union> {v \<in> set rest. map_of ?m1 v = Some (int (count_list rest v))}"
      and dz: "distinct (zs @ [c]) \<and> set (zs @ [c]) \<inter> set (keys ?m1) = {} \<longrightarrow> distinct zs'"
      using Cons.IH [OF dist1 pre1, of "zs @ [c]"] by blast
    have r: "relax_children (m, zs) (c # rest) = Inr (m', zs')"
      using d True run by simp
    have mo': "\<forall>v. map_of m' v =
          (case map_of m v of
             None \<Rightarrow> None
           | Some d \<Rightarrow> if v \<in> set (c # rest) \<and> d = int (count_list (c # rest) v) then None
                       else Some (d - int (count_list (c # rest) v)))"
    proof
      fix v
      show "map_of m' v =
          (case map_of m v of
             None \<Rightarrow> None
           | Some d \<Rightarrow> if v \<in> set (c # rest) \<and> d = int (count_list (c # rest) v) then None
                       else Some (d - int (count_list (c # rest) v)))"
      proof (cases "v = c")
        case True
        then show ?thesis using mo d d1 \<open>count_list rest c = 0\<close> by (simp add: map_of_dict_del)
      next
        case False
        then show ?thesis using mo by (auto simp: map_of_dict_del split: option.splits)
      qed
    qed
    have zs'': "set zs' = set zs \<union> {v \<in> set (c # rest). map_of m v = Some (int (count_list (c # rest) v))}"
      using zs d d1 \<open>count_list rest c = 0\<close> notin by (auto simp: map_of_dict_del)
    have dz': "distinct zs \<and> set zs \<inter> set (keys m) = {} \<longrightarrow> distinct zs'"
      using dz ckey by (auto simp: keys_dict_del)
    show ?thesis using r dm' mo' zs'' dz' by blast
  next
    case False
    let ?m1 = "dict_set m c (d - 1)"
    have dist1: "distinct (keys ?m1)" using Cons.prems(1) by (rule distinct_dict_set)
    have pre1: "\<forall>c' \<in> set rest. \<exists>d'. map_of ?m1 c' = Some d' \<and> int (count_list rest c') \<le> d'"
    proof
      fix c' assume c': "c' \<in> set rest"
      from Cons.prems(2) c' obtain d' where "map_of m c' = Some d'"
        and "int (count_list (c # rest) c') \<le> d'" by auto
      then show "\<exists>d'. map_of ?m1 c' = Some d' \<and> int (count_list rest c') \<le> d'"
        using d dc by (cases "c' = c") (auto simp: map_of_dict_set)
    qed
    obtain m' zs' where run: "relax_children (?m1, zs) rest = Inr (m', zs')"
      and dm': "distinct (keys m')"
      and mo: "\<forall>v. map_of m' v =
          (case map_of ?m1 v of
             None \<Rightarrow> None
           | Some d \<Rightarrow> if v \<in> set rest \<and> d = int (count_list rest v) then None
                       else Some (d - int (count_list rest v)))"
      and zs: "set zs' = set zs \<union> {v \<in> set rest. map_of ?m1 v = Some (int (count_list rest v))}"
      and dz: "distinct zs \<and> set zs \<inter> set (keys ?m1) = {} \<longrightarrow> distinct zs'"
      using Cons.IH [OF dist1 pre1, of zs] by blast
    have r: "relax_children (m, zs) (c # rest) = Inr (m', zs')"
      using d False run by simp
    have zero: "c \<notin> set rest \<Longrightarrow> count_list rest c = 0"
      by (simp add: count_list_0_iff)
    have pos: "0 < count_list rest c \<Longrightarrow> c \<in> set rest"
      using count_list_0_iff [of rest c] by auto
    have mo': "\<forall>v. map_of m' v =
          (case map_of m v of
             None \<Rightarrow> None
           | Some d \<Rightarrow> if v \<in> set (c # rest) \<and> d = int (count_list (c # rest) v) then None
                       else Some (d - int (count_list (c # rest) v)))"
    proof
      fix v
      show "map_of m' v =
          (case map_of m v of
             None \<Rightarrow> None
           | Some d \<Rightarrow> if v \<in> set (c # rest) \<and> d = int (count_list (c # rest) v) then None
                       else Some (d - int (count_list (c # rest) v)))"
      proof (cases "v = c")
        case True
        show ?thesis
        proof (cases "c \<in> set rest")
          case True
          then show ?thesis using mo d \<open>v = c\<close> by (auto simp: map_of_dict_set)
        next
          case False
          then show ?thesis using mo d \<open>v = c\<close> \<open>d - 1 \<noteq> 0\<close> zero
            by (auto simp: map_of_dict_set)
        qed
      next
        case False
        then show ?thesis using mo by (auto simp: map_of_dict_set split: option.splits)
      qed
    qed
    have zs'': "set zs' = set zs \<union> {v \<in> set (c # rest). map_of m v = Some (int (count_list (c # rest) v))}"
    proof -
      have "{v \<in> set rest. map_of ?m1 v = Some (int (count_list rest v))} =
            {v \<in> set (c # rest). map_of m v = Some (int (count_list (c # rest) v))}"
        using d \<open>d - 1 \<noteq> 0\<close> zero pos by (auto simp: map_of_dict_set)
      then show ?thesis using zs by simp
    qed
    have dz': "distinct zs \<and> set zs \<inter> set (keys m) = {} \<longrightarrow> distinct zs'"
      using dz ckey by (auto simp: keys_dict_set)
    show ?thesis using r dm' mo' zs'' dz' by blast
  qed
qed

lemma process_generation_concat:
  "set ns \<subseteq> set (keys (nodes graph)) \<Longrightarrow>
   process_generation graph st ns = relax_children st (concat (map (neighbors graph) ns))"
proof (induction ns arbitrary: st)
  case Nil
  then show ?case by simp
next
  case (Cons n ns)
  then show ?case
    by (simp add: relax_children_append split: sum.splits)
qed

lemma count_list_map_snd:
  "count_list (map snd (filter (\<lambda>e. fst e = u) es)) v = count_list es (u, v)"
  by (induction es) auto

lemma count_list_distinct: "distinct xs \<Longrightarrow> count_list xs x = (if x \<in> set xs then 1 else 0)"
  by (induction xs) auto

lemma count_list_neighbors:
  "distinct (keys (edges graph)) \<Longrightarrow>
   count_list (neighbors graph u) v = (if (u, v) \<in> edge_rel graph then 1 else 0)"
  by (simp add: neighbors_def edge_rel_def count_list_map_snd count_list_distinct)

lemma count_list_children:
  assumes "distinct (keys (edges graph))" "distinct zero"
  shows "count_list (concat (map (neighbors graph) zero)) v =
           card {u \<in> set zero. (u, v) \<in> edge_rel graph}"
  using assms(2)
proof (induction zero)
  case Nil
  then show ?case by simp
next
  case (Cons z zero)
  have fin: "finite {u \<in> set zero. (u, v) \<in> edge_rel graph}" by simp
  show ?case
  proof (cases "(z, v) \<in> edge_rel graph")
    case True
    then have "{u \<in> set (z # zero). (u, v) \<in> edge_rel graph} =
               insert z {u \<in> set zero. (u, v) \<in> edge_rel graph}" by auto
    moreover have "z \<notin> {u \<in> set zero. (u, v) \<in> edge_rel graph}" using Cons.prems by simp
    ultimately have "card {u \<in> set (z # zero). (u, v) \<in> edge_rel graph} =
                     Suc (card {u \<in> set zero. (u, v) \<in> edge_rel graph})"
      using fin by simp
    then show ?thesis
      using Cons True by (simp add: count_list_neighbors [OF assms(1)])
  next
    case False
    then have "{u \<in> set (z # zero). (u, v) \<in> edge_rel graph} =
               {u \<in> set zero. (u, v) \<in> edge_rel graph}" by auto
    then show ?thesis
      using Cons False by (simp add: count_list_neighbors [OF assms(1)])
  qed
qed

lemma set_children:
  "set (concat (map (neighbors graph) zero)) = {v. \<exists>u \<in> set zero. (u, v) \<in> edge_rel graph}"
  by (auto simp: neighbors_def edge_rel_def) force

lemma finite_pending: "finite (pending graph done v)"
proof -
  have "pending graph done v \<subseteq> fst ` edge_rel graph"
    by (auto simp: pending_def image_iff) force
  moreover have "finite (fst ` edge_rel graph)" by (simp add: edge_rel_def)
  ultimately show ?thesis by (rule finite_subset)
qed

lemma pending_append:
  "pending graph (done @ zero) v =
     pending graph done v - {u \<in> set zero. (u, v) \<in> edge_rel graph}"
  by (auto simp: pending_def)

lemma providers_first_append:
  assumes "providers_first graph done"
    and "\<forall>v \<in> set zero. pending graph done v = {}"
    and "set done \<inter> set zero = {}"
  shows "providers_first graph (done @ zero)"
  unfolding providers_first_def
proof (intro ballI impI)
  fix e assume e: "e \<in> edge_rel graph" and t: "snd e \<in> set (done @ zero)"
  show "fst e \<in> set (takeWhile (\<lambda>x. x \<noteq> snd e) (done @ zero))"
  proof (cases "snd e \<in> set done")
    case True
    then have "takeWhile (\<lambda>x. x \<noteq> snd e) (done @ zero) = takeWhile (\<lambda>x. x \<noteq> snd e) done"
      by (simp add: takeWhile_append1)
    then show ?thesis using assms(1) e True by (simp add: providers_first_def)
  next
    case False
    then have z: "snd e \<in> set zero" using t by simp
    have "(fst e, snd e) \<in> edge_rel graph" using e by simp
    then have "fst e \<in> set done" using assms(2) z by (auto simp: pending_def)
    moreover have "takeWhile (\<lambda>x. x \<noteq> snd e) (done @ zero) =
                   done @ takeWhile (\<lambda>x. x \<noteq> snd e) zero"
      using False by (intro takeWhile_append2) auto
    ultimately show ?thesis by simp
  qed
qed

lemma generation_step:
  assumes wf: "well_formed graph" and inv: "kahn_inv graph done m zero"
  shows "\<exists>m' zero'. process_generation graph (m, []) zero = Inr (m', zero')
           \<and> kahn_inv graph (done @ zero) m' zero'"
proof -
  let ?E = "edge_rel graph"
  let ?cs = "concat (map (neighbors graph) zero)"
  let ?from = "\<lambda>v. {u \<in> set zero. (u, v) \<in> ?E}"
  have dist: "distinct (done @ zero @ keys m)"
    and verts: "set (done @ zero @ keys m) = set (keys (nodes graph))"
    and pf: "providers_first graph done"
    and zp: "\<forall>v \<in> set zero. pending graph done v = {}"
    and mp: "\<forall>v d. map_of m v = Some d \<longrightarrow> d = int (card (pending graph done v)) \<and> 0 < d"
    using inv by (auto simp: kahn_inv_def)
  have de: "distinct (keys (edges graph))" using wf by (simp add: well_formed_def)
  have dz: "distinct zero" and dm: "distinct (keys m)" and dd: "distinct done"
    and dzd: "set done \<inter> set zero = {}" and dzm: "set zero \<inter> set (keys m) = {}"
    and ddm: "set done \<inter> set (keys m) = {}"
    using dist by auto
  have cnt: "count_list ?cs v = card (?from v)" for v
    using count_list_children [OF de dz] by simp
  have sub: "?from v \<subseteq> pending graph done v" for v
    using dzd by (auto simp: pending_def)
  have cle: "card (?from v) \<le> card (pending graph done v)" for v
    by (rule card_mono [OF finite_pending sub])
  have child_key: "c \<in> set (keys m)" if c: "c \<in> set ?cs" for c
  proof -
    from c obtain u where u: "u \<in> set zero" and e: "(u, c) \<in> ?E"
      unfolding set_children by blast
    have und: "u \<notin> set done" using u dzd by auto
    have "c \<in> set (keys (nodes graph))"
      using wf e by (auto simp: well_formed_def edge_rel_def)
    moreover have "c \<notin> set done"
    proof
      assume cd: "c \<in> set done"
      then have "u \<in> set (takeWhile (\<lambda>x. x \<noteq> c) done)"
        using pf e by (auto simp: providers_first_def)
      then have "u \<in> set done" by (auto dest: set_takeWhileD)
      then show False using und by simp
    qed
    moreover have "c \<notin> set zero"
    proof
      assume "c \<in> set zero"
      then have "pending graph done c = {}" using zp by simp
      then show False using e und by (auto simp: pending_def)
    qed
    ultimately show ?thesis using verts by auto
  qed
  have pre: "\<forall>c \<in> set ?cs. \<exists>d. map_of m c = Some d \<and> int (count_list ?cs c) \<le> d"
  proof
    fix c assume c: "c \<in> set ?cs"
    then obtain d where d: "map_of m c = Some d"
      using child_key [OF c] map_of_keys [of m c] by auto
    then have "d = int (card (pending graph done c))" using mp by simp
    then show "\<exists>d. map_of m c = Some d \<and> int (count_list ?cs c) \<le> d"
      using d cle [of c] cnt [of c] by simp
  qed
  from relax_children_spec [OF dm pre, of "[]"]
  obtain m' zero' where
    all: "relax_children (m, []) ?cs = Inr (m', zero') \<and> distinct (keys m')
      \<and> (\<forall>v. map_of m' v =
          (case map_of m v of
             None \<Rightarrow> None
           | Some d \<Rightarrow> if v \<in> set ?cs \<and> d = int (count_list ?cs v) then None
                       else Some (d - int (count_list ?cs v))))
      \<and> set zero' = set [] \<union> {v \<in> set ?cs. map_of m v = Some (int (count_list ?cs v))}
      \<and> (distinct ([]::string list) \<and> set [] \<inter> set (keys m) = {} \<longrightarrow> distinct zero')"
    by (elim exE) (rule that)
  note run = all [THEN conjunct1]
  note dm' = all [THEN conjunct2, THEN conjunct1]
  note mo = all [THEN conjunct2, THEN conjunct2, THEN conjunct1]
  note zs = all [THEN conjunct2, THEN conjunct2, THEN conjunct2, THEN conjunct1]
  note dz' = all [THEN conjunct2, THEN conjunct2, THEN conjunct2, THEN conjunct2]
  have zsub: "set zero \<subseteq> set (keys (nodes graph))" using verts by auto
  have pg: "process_generation graph (m, []) zero = Inr (m', zero')"
    using process_generation_concat [OF zsub] run by simp
  have zero'_keys: "set zero' \<subseteq> set (keys m)"
    using zs map_of_keys [of m] by auto
  have keys_m': "set (keys m') = set (keys m) - set zero'"
  proof (intro set_eqI iffI)
    fix v assume "v \<in> set (keys m')"
    then obtain d' where d': "map_of m' v = Some d'"
      using map_of_keys [of m' v] by auto
    then obtain d where d: "map_of m v = Some d"
      and nz: "\<not> (v \<in> set ?cs \<and> d = int (count_list ?cs v))"
      using mo by (auto split: option.splits if_splits)
    then show "v \<in> set (keys m) - set zero'"
      using zs map_of_keys [of m v] by auto
  next
    fix v assume v: "v \<in> set (keys m) - set zero'"
    then obtain d where d: "map_of m v = Some d" using map_of_keys [of m v] by auto
    have "\<not> (v \<in> set ?cs \<and> d = int (count_list ?cs v))" using v d zs by auto
    then have "map_of m' v \<noteq> None" using mo d by auto
    then show "v \<in> set (keys m')" using map_of_keys [of m' v] by simp
  qed
  have dist': "distinct ((done @ zero) @ zero' @ keys m')"
    using dist dz' dm' zero'_keys keys_m' by auto
  have verts': "set ((done @ zero) @ zero' @ keys m') = set (keys (nodes graph))"
    using verts zero'_keys keys_m' by auto
  have pf': "providers_first graph (done @ zero)"
    by (rule providers_first_append [OF pf zp dzd])
  have zp': "\<forall>v \<in> set zero'. pending graph (done @ zero) v = {}"
  proof
    fix v assume "v \<in> set zero'"
    then have "map_of m v = Some (int (count_list ?cs v))" using zs by simp
    then have "int (card (?from v)) = int (card (pending graph done v))"
      using mp cnt [of v] by auto
    then have "?from v = pending graph done v"
      using card_subset_eq [OF finite_pending sub, of v] by simp
    then show "pending graph (done @ zero) v = {}"
      by (simp add: pending_append)
  qed
  have mp': "\<forall>v d. map_of m' v = Some d \<longrightarrow> d = int (card (pending graph (done @ zero) v)) \<and> 0 < d"
  proof (intro allI impI)
    fix v d' assume d': "map_of m' v = Some d'"
    then obtain d where d: "map_of m v = Some d"
      and nz: "\<not> (v \<in> set ?cs \<and> d = int (count_list ?cs v))"
      and dd': "d' = d - int (count_list ?cs v)"
      using mo by (auto split: option.splits if_splits)
    have dcard: "d = int (card (pending graph done v))" and dpos: "0 < d" using mp d by auto
    have "card (pending graph (done @ zero) v) = card (pending graph done v) - card (?from v)"
      unfolding pending_append
      by (rule card_Diff_subset [OF _ sub]) (rule finite_subset [OF sub finite_pending])
    then have eq: "d' = int (card (pending graph (done @ zero) v))"
      using dd' dcard cnt [of v] cle [of v] by simp
    have "0 < d'"
    proof (cases "v \<in> set ?cs")
      case True
      then have "d \<noteq> int (count_list ?cs v)" using nz by simp
      moreover have "int (count_list ?cs v) \<le> d" using dcard cnt [of v] cle [of v] by simp
      ultimately show ?thesis using dd' by simp
    next
      case False
      then have "count_list ?cs v = 0" by (simp add: count_list_0_iff)
      then show ?thesis using dd' dpos by simp
    qed
    then show "d' = int (card (pending graph (done @ zero) v)) \<and> 0 < d'" using eq by simp
  qed
  have "kahn_inv graph (done @ zero) m' zero'"
    unfolding kahn_inv_def using dist' verts' pf' zp' mp' by blast
  then show ?thesis using pg by blast
qed

lemma takeWhile_index_less:
  "u \<in> set (takeWhile (\<lambda>x. x \<noteq> v) xs) \<Longrightarrow>
   length (takeWhile (\<lambda>x. x \<noteq> u) xs) < length (takeWhile (\<lambda>x. x \<noteq> v) xs)"
  by (induction xs) (auto split: if_splits)

lemma providers_first_acyclic:
  assumes pf: "providers_first graph order"
    and all: "\<forall>e \<in> edge_rel graph. snd e \<in> set order"
  shows "\<not> contains_cycle graph"
proof
  let ?idx = "\<lambda>v. length (takeWhile (\<lambda>x. x \<noteq> v) order)"
  let ?R = "inv_image less_than ?idx"
  assume "contains_cycle graph"
  then obtain v where v: "(v, v) \<in> (edge_rel graph)\<^sup>+"
    by (auto simp: contains_cycle_def)
  have sub: "edge_rel graph \<subseteq> ?R"
  proof
    fix e assume e: "e \<in> edge_rel graph"
    then have "fst e \<in> set (takeWhile (\<lambda>x. x \<noteq> snd e) order)"
      using pf all by (simp add: providers_first_def)
    then have "?idx (fst e) < ?idx (snd e)" by (rule takeWhile_index_less)
    then show "e \<in> ?R" by (cases e) simp
  qed
  have "trans ?R" by (intro trans_inv_image trans_less_than)
  then have "(edge_rel graph)\<^sup>+ \<subseteq> ?R"
    using sub by (metis trancl_id trancl_mono subsetI)
  then have "(v, v) \<in> ?R" using v by blast
  then show False by simp
qed

lemma cycle_if_stuck:
  assumes wf: "well_formed graph" and inv: "kahn_inv graph done m []" and ne: "m \<noteq> []"
  shows "contains_cycle graph"
proof (rule ccontr)
  let ?E = "edge_rel graph"
  let ?K = "set (keys m)"
  assume "\<not> contains_cycle graph"
  then have "acyclic ?E" by (simp add: contains_cycle_def acyclic_def)
  moreover have "finite ?E" by (simp add: edge_rel_def)
  ultimately have "wf ?E" by (rule finite_acyclic_wf [rotated])
  moreover obtain k where k: "k \<in> ?K" using ne by (cases m) (auto simp: keys_def)
  ultimately obtain v where v: "v \<in> ?K" and min: "\<And>u. (u, v) \<in> ?E \<Longrightarrow> u \<notin> ?K"
    by (rule wfE_min) blast
  obtain d where d: "map_of m v = Some d" using v map_of_keys [of m v] by auto
  then have "d = int (card (pending graph done v))" and "0 < d"
    using inv by (auto simp: kahn_inv_def)
  then have "pending graph done v \<noteq> {}" by auto
  then obtain u where e: "(u, v) \<in> ?E" and und: "u \<notin> set done"
    by (auto simp: pending_def)
  have "u \<in> set (keys (nodes graph))"
    using wf e by (auto simp: well_formed_def edge_rel_def)
  then have "u \<in> ?K" using inv und by (auto simp: kahn_inv_def)
  then show False using min [OF e] by simp
qed

lemma kahn_correct:
  assumes wf: "well_formed graph"
  shows "kahn_inv graph done m zero \<Longrightarrow>
     (\<exists>gens. topological_generations graph m zero = Inr gens
        \<and> distinct (done @ concat gens)
        \<and> set (done @ concat gens) = set (keys (nodes graph))
        \<and> providers_first graph (done @ concat gens))
     \<or> (topological_generations graph m zero = Inl Unfeasible \<and> contains_cycle graph)"
  using wf
proof (induction graph m zero arbitrary: "done" rule: topological_generations.induct)
  case (1 graph m zero)
  note inv = "1.prems"(1) and wf = "1.prems"(2)
  show ?case
  proof (cases "zero = []")
    case True
    show ?thesis
    proof (cases "m = []")
      case True
      have "topological_generations graph m zero = Inr []"
        using True \<open>zero = []\<close> by (simp add: topological_generations.simps)
      then show ?thesis
        using inv True \<open>zero = []\<close> by (auto simp: kahn_inv_def keys_def)
    next
      case False
      have "topological_generations graph m zero = Inl Unfeasible"
        using False \<open>zero = []\<close> by (simp add: topological_generations.simps)
      moreover have "contains_cycle graph"
        using cycle_if_stuck [OF wf _ False] inv \<open>zero = []\<close> by simp
      ultimately show ?thesis by simp
    qed
  next
    case False
    obtain m' zero' where pg: "process_generation graph (m, []) zero = Inr (m', zero')"
      and inv': "kahn_inv graph (done @ zero) m' zero'"
      using generation_step [OF wf inv] by blast
    have unfold: "topological_generations graph m zero =
        (case topological_generations graph m' zero' of
           Inl e \<Rightarrow> Inl e
         | Inr generations \<Rightarrow> Inr (zero # generations))"
      using False pg by (simp add: topological_generations.simps [of graph m zero])
    from "1.IH" [OF False pg refl inv' wf]
    show ?thesis
    proof
      assume "\<exists>gens. topological_generations graph m' zero' = Inr gens
        \<and> distinct ((done @ zero) @ concat gens)
        \<and> set ((done @ zero) @ concat gens) = set (keys (nodes graph))
        \<and> providers_first graph ((done @ zero) @ concat gens)"
      then obtain gens where g: "topological_generations graph m' zero' = Inr gens"
        and p: "distinct ((done @ zero) @ concat gens)"
           "set ((done @ zero) @ concat gens) = set (keys (nodes graph))"
           "providers_first graph ((done @ zero) @ concat gens)"
        by blast
      have "topological_generations graph m zero = Inr (zero # gens)"
        using unfold g by simp
      moreover have "done @ concat (zero # gens) = (done @ zero) @ concat gens" by simp
      ultimately show ?thesis using p by (metis (no_types))
    next
      assume "topological_generations graph m' zero' = Inl Unfeasible \<and> contains_cycle graph"
      then show ?thesis using unfold by simp
    qed
  qed
qed

lemma distinct_predecessors:
  "distinct (keys (edges graph)) \<Longrightarrow> distinct (predecessors graph v)"
  unfolding predecessors_def
  by (rule distinct_map [THEN iffD2]) (auto simp: inj_on_def)

lemma set_predecessors: "set (predecessors graph v) = pending graph [] v"
  by (auto simp: predecessors_def pending_def edge_rel_def) force

lemma in_degree_card:
  "distinct (keys (edges graph)) \<Longrightarrow> in_degree graph v = int (card (pending graph [] v))"
  using distinct_card [OF distinct_predecessors, of graph v]
  by (simp add: in_degree_def set_predecessors)

lemma kahn_inv_initial:
  assumes wf: "well_formed graph"
  shows "kahn_inv graph [] (indegree_map graph) (zero_indegree graph)"
proof -
  let ?V = "keys (nodes graph)"
  have dv: "distinct ?V" and de: "distinct (keys (edges graph))"
    using wf by (auto simp: well_formed_def)
  have km: "keys (indegree_map graph) = filter (\<lambda>v. in_degree graph v > 0) ?V"
    by (simp add: indegree_map_def keys_def comp_def)
  have nonneg: "0 \<le> in_degree graph v" for v by (simp add: in_degree_def)
  have 1: "distinct ([] @ zero_indegree graph @ keys (indegree_map graph))"
    using dv by (auto simp: km zero_indegree_def)
  have 2: "set ([] @ zero_indegree graph @ keys (indegree_map graph)) = set ?V"
    using nonneg by (auto simp: km zero_indegree_def order_less_le)
  have 3: "providers_first graph []" by (simp add: providers_first_def)
  have 4: "\<forall>v \<in> set (zero_indegree graph). pending graph [] v = {}"
    using finite_pending [of graph "[]"] by (auto simp: zero_indegree_def in_degree_card [OF de])
  have 5: "\<forall>v d. map_of (indegree_map graph) v = Some d \<longrightarrow>
             d = int (card (pending graph [] v)) \<and> 0 < d"
  proof (intro allI impI)
    fix v d assume "map_of (indegree_map graph) v = Some d"
    then have "(v, d) \<in> set (indegree_map graph)" by (rule map_of_SomeD)
    then have "d = in_degree graph v" and "0 < in_degree graph v"
      by (auto simp: indegree_map_def)
    then show "d = int (card (pending graph [] v)) \<and> 0 < d"
      using in_degree_card [OF de, of v] by simp
  qed
  show ?thesis unfolding kahn_inv_def using 1 2 3 4 5 by blast
qed

lemma topological_sort_correct:
  assumes wf: "well_formed graph"
  shows "(\<exists>order. topological_sort graph = Inr order \<and> distinct order
            \<and> set order = set (keys (nodes graph)) \<and> providers_first graph order
            \<and> \<not> contains_cycle graph)
         \<or> (topological_sort graph = Inl Unfeasible \<and> contains_cycle graph)"
proof -
  from kahn_correct [OF wf kahn_inv_initial [OF wf]]
  show ?thesis
  proof
    assume "\<exists>gens. topological_generations graph (indegree_map graph) (zero_indegree graph) = Inr gens
        \<and> distinct ([] @ concat gens)
        \<and> set ([] @ concat gens) = set (keys (nodes graph))
        \<and> providers_first graph ([] @ concat gens)"
    then obtain gens where
      g: "topological_generations graph (indegree_map graph) (zero_indegree graph) = Inr gens"
      and d: "distinct (concat gens)" and s: "set (concat gens) = set (keys (nodes graph))"
      and p: "providers_first graph (concat gens)"
      by auto
    have ts: "topological_sort graph = Inr (concat gens)"
      using g by (simp add: topological_sort_def)
    have "\<forall>e \<in> edge_rel graph. snd e \<in> set (concat gens)"
      using wf s by (auto simp: well_formed_def edge_rel_def)
    then have "\<not> contains_cycle graph" by (rule providers_first_acyclic [OF p])
    then show ?thesis using ts d s p by blast
  next
    assume "topological_generations graph (indegree_map graph) (zero_indegree graph) = Inl Unfeasible
            \<and> contains_cycle graph"
    then show ?thesis by (simp add: topological_sort_def)
  qed
qed

section \<open>Compiling: the acyclicity check and the emissions\<close>

lemma acyclic_graph_sorts:
  assumes "well_formed graph" "\<not> contains_cycle graph"
  shows "\<exists>order. topological_sort graph = Inr order \<and> distinct order
            \<and> set order = set (keys (nodes graph)) \<and> providers_first graph order"
  using topological_sort_correct [OF assms(1)] assms(2) by blast

lemma cyclic_graph_unfeasible:
  assumes "well_formed graph" "contains_cycle graph"
  shows "topological_sort graph = Inl Unfeasible"
  using topological_sort_correct [OF assms(1)] assms(2) by blast

lemma self_loop_graph_eq:
  "self_loop_graph = \<lparr>nodes = [(''step'', 3)], edges = [((''step'', ''step''), ''x'')]\<rparr>"
  by (simp add: self_loop_graph_def add_node_def graph_add_node_def graph_add_edge_def
      input_params_needed_def param_key_def example_store_def loop_node_def Let_def)

lemma self_loop_graph_cycle: "well_formed self_loop_graph \<and> contains_cycle self_loop_graph"
proof -
  have "(''step'', ''step'') \<in> edge_rel self_loop_graph"
    by (simp add: self_loop_graph_eq edge_rel_def keys_def)
  then have "(''step'', ''step'') \<in> (edge_rel self_loop_graph)\<^sup>+" by (rule r_into_trancl)
  then have "contains_cycle self_loop_graph" unfolding contains_cycle_def by blast
  moreover have "well_formed self_loop_graph"
    by (simp add: self_loop_graph_eq well_formed_def keys_def)
  ultimately show ?thesis by simp
qed

text \<open>
  C3. For every graph that contains a cycle the acyclicity check of \<open>compile_graph\<close>
  fails: \<open>compile_graph\<close> raises \<open>NotADAG\<close> and returns no \<open>FunctionData\<close>, and its loop
  is not entered, so nothing has been emitted, no manifest has been built and no node
  has been written to.
\<close>

theorem compile_graph_cycle:
  assumes "well_formed graph" and "contains_cycle graph"
  shows "is_directed_acyclic_graph graph = Inr False
    \<and> compile_loop nm s graph ep = (Inl NotADAG, s)
    \<and> compile_graph nm fmt s graph ep = (Inl NotADAG, s)"
  using cyclic_graph_unfeasible [OF assms]
  by (simp add: is_directed_acyclic_graph_def compile_loop_def compile_graph_def)

theorem compile_graph_cycle_witness:
  "well_formed self_loop_graph \<and> contains_cycle self_loop_graph
   \<and> is_directed_acyclic_graph self_loop_graph = Inr False
   \<and> compile_loop plain_methods example_store self_loop_graph scenario_path =
       (Inl NotADAG, example_store)
   \<and> compile_graph plain_methods plain_formatters example_store self_loop_graph scenario_path =
       (Inl NotADAG, example_store)"
  using self_loop_graph_cycle
    compile_graph_cycle
      [of self_loop_graph plain_methods example_store scenario_path plain_formatters]
  by simp

lemma filter_kinds:
  assumes "\<forall>e \<in> set es. kind e = kind_of (vertex e)"
  shows "length (filter (\<lambda>e. kind e = k) es) = length (filter (\<lambda>n. kind_of n = k) (map vertex es))"
  using assms by (induction es) auto

lemma filter_same_set:
  assumes "distinct xs" "distinct ys" "set xs = set ys"
  shows "length (filter P xs) = length (filter P ys)"
  using assms by (simp add: distinct_length_filter)

text \<open>
  C1, as the code has it. For every well-formed acyclic graph the acyclicity check
  passes and the loop of \<open>compile_graph\<close> runs to its end, with exactly one emission per
  vertex, in the order of the topological sort, in which the source of every edge comes
  before its target. What a vertex gets is decided by its name: the header when the
  name contains \<open>request\<close>, the return statement when it contains \<open>response\<close> (and not
  \<open>request\<close>), a call site otherwise; so there are as many emissions of each kind as
  vertices with such a name. The text of an emission is the one the method of its kind
  returns on the vertex's node and the map of the output names, both as the vertices
  before it leave them: the nodes of the vertices that got a header carry the derived
  name, every other node is as it was. \<open>graph_script\<close> is the concatenation of the
  emitted texts, \<open>python_file\<close> holds the code of the nodes that got a call site, each
  between two line feeds, \<open>requirements\<close> the packages of all the nodes, both in the
  order of the sort; and \<open>compile_graph\<close> hands \<open>python_file\<close>, a line feed and
  \<open>graph_script\<close> to \<open>refactor_imports\<close> and the formatters, whose result is the code it
  returns.
\<close>

theorem compile_graph_emissions:
  assumes "well_formed graph" and "\<not> contains_cycle graph"
  shows "\<exists>order st.
      is_directed_acyclic_graph graph = Inr True
    \<and> topological_sort graph = Inr order
    \<and> distinct order
    \<and> set order = set (keys (nodes graph))
    \<and> (\<forall>e \<in> edge_rel graph. fst e \<in> set (takeWhile (\<lambda>x. x \<noteq> snd e) order))
    \<and> compile_loop nm s graph ep =
        (Inr st, renamed s (derive_function_name (ExecutionPath.name ep)) (header_refs graph order))
    \<and> length (emissions st) = length order
    \<and> (\<forall>i < length order. \<exists>st_i r.
          emit_nodes nm (derive_function_name (ExecutionPath.name ep)) graph initial_state s
              (take i order) =
            (Inr st_i,
             renamed s (derive_function_name (ExecutionPath.name ep))
               (header_refs graph (take i order)))
          \<and> map_of (nodes graph) (order ! i) = Some r
          \<and> emissions st ! i =
              \<lparr>kind = kind_of (order ! i), vertex = order ! i,
               text_emitted =
                 emission_text nm (derive_function_name (ExecutionPath.name ep))
                   (kind_of (order ! i))
                   (renamed s (derive_function_name (ExecutionPath.name ep))
                      (header_refs graph (take i order)) r)
                   (output_name_map st_i)\<rparr>)
    \<and> (\<forall>k. length (filter (\<lambda>e. kind e = k) (emissions st)) =
             length (filter (\<lambda>n. kind_of n = k) (keys (nodes graph))))
    \<and> graph_script st = concat (map text_emitted (emissions st))
    \<and> python_file st = concat (map (preamble_of s graph) order)
    \<and> requirements st = concat (map (packages_of s graph) order)
    \<and> compile_graph nm fmt s graph ep =
        (case refactor_imports (python_file st @ [CHR 0x0A] @ graph_script st) of
           Inl e \<Rightarrow>
             (Inl e,
              renamed s (derive_function_name (ExecutionPath.name ep)) (header_refs graph order))
         | Inr refactored \<Rightarrow>
             (case format_and_sort_code fmt refactored of
                Inl e \<Rightarrow>
                  (Inl e,
                   renamed s (derive_function_name (ExecutionPath.name ep))
                     (header_refs graph order))
              | Inr code' \<Rightarrow>
                  (Inr \<lparr>FunctionData.function_name = derive_function_name (ExecutionPath.name ep),
                        code = code',
                        requirements_txt =
                          lines_text
                            (map (\<lambda>n. requirement n (first_seen_pair (requirements st) n))
                               (first_seen_names (map package_name (requirements st)))),
                        endpoint_name = ExecutionPath.endpoint_name ep\<rparr>,
                   renamed s (derive_function_name (ExecutionPath.name ep))
                     (header_refs graph order))))"
proof -
  let ?f = "derive_function_name (ExecutionPath.name ep)"
  obtain order where ts: "topological_sort graph = Inr order" and d: "distinct order"
    and so: "set order = set (keys (nodes graph))" and pf: "providers_first graph order"
    using acyclic_graph_sorts [OF assms] by blast
  have dag: "is_directed_acyclic_graph graph = Inr True"
    using ts by (simp add: is_directed_acyclic_graph_def)
  obtain st s' where run: "emit_nodes nm ?f graph initial_state s order = (Inr st, s')"
    using emit_nodes_total [of order graph nm ?f initial_state s] so by blast
  have s': "s' = renamed s ?f (header_refs graph order)"
    by (rule emit_nodes_store [OF run])
  have loop: "compile_loop nm s graph ep = (Inr st, renamed s ?f (header_refs graph order))"
    using ts run s' by (simp add: compile_loop_def is_directed_acyclic_graph_def)
  obtain new where n1: "emissions st = emissions initial_state @ new"
    and n2: "length new = length order"
    and n3: "graph_script st = graph_script initial_state @ concat (map text_emitted new)"
    and n4: "\<forall>i < length order. \<exists>st_i s_i r.
          emit_nodes nm ?f graph initial_state s (take i order) = (Inr st_i, s_i)
          \<and> map_of (nodes graph) (order ! i) = Some r
          \<and> new ! i = \<lparr>kind = kind_of (order ! i), vertex = order ! i,
                       text_emitted =
                         emission_text nm ?f (kind_of (order ! i)) (s_i r) (output_name_map st_i)\<rparr>"
    using emit_nodes_trace [OF run] by (elim exE conjE) (rule that)
  have new: "emissions st = new" using n1 by (simp add: initial_state_def)
  have len: "length (emissions st) = length order" using n2 new by simp
  have script: "graph_script st = concat (map text_emitted (emissions st))"
    using n3 new by (simp add: initial_state_def)
  have rows: "\<forall>i < length order. \<exists>st_i r.
          emit_nodes nm ?f graph initial_state s (take i order) =
            (Inr st_i, renamed s ?f (header_refs graph (take i order)))
          \<and> map_of (nodes graph) (order ! i) = Some r
          \<and> emissions st ! i =
              \<lparr>kind = kind_of (order ! i), vertex = order ! i,
               text_emitted =
                 emission_text nm ?f (kind_of (order ! i))
                   (renamed s ?f (header_refs graph (take i order)) r)
                   (output_name_map st_i)\<rparr>"
  proof (intro allI impI)
    fix i
    assume "i < length order"
    then obtain st_i s_i r where pre: "emit_nodes nm ?f graph initial_state s (take i order) = (Inr st_i, s_i)"
      and r: "map_of (nodes graph) (order ! i) = Some r"
      and row: "new ! i = \<lparr>kind = kind_of (order ! i), vertex = order ! i,
                       text_emitted =
                         emission_text nm ?f (kind_of (order ! i)) (s_i r) (output_name_map st_i)\<rparr>"
      using n4 by blast
    have s_i: "s_i = renamed s ?f (header_refs graph (take i order))"
      by (rule emit_nodes_store [OF pre])
    show "\<exists>st_i r.
          emit_nodes nm ?f graph initial_state s (take i order) =
            (Inr st_i, renamed s ?f (header_refs graph (take i order)))
          \<and> map_of (nodes graph) (order ! i) = Some r
          \<and> emissions st ! i =
              \<lparr>kind = kind_of (order ! i), vertex = order ! i,
               text_emitted =
                 emission_text nm ?f (kind_of (order ! i))
                   (renamed s ?f (header_refs graph (take i order)) r)
                   (output_name_map st_i)\<rparr>"
      using pre r row unfolding s_i new by blast
  qed
  have vo: "map vertex (emissions st) = order"
  proof (rule nth_equalityI)
    show "length (map vertex (emissions st)) = length order" using len by simp
  next
    fix i
    assume "i < length (map vertex (emissions st))"
    then have i: "i < length order" using len by simp
    have "vertex (emissions st ! i) = order ! i"
      using rows [rule_format, OF i] by (elim exE conjE) simp
    then show "map vertex (emissions st) ! i = order ! i" using i len by simp
  qed
  have kinds: "\<forall>e \<in> set (emissions st). kind e = kind_of (vertex e)"
  proof
    fix e
    assume "e \<in> set (emissions st)"
    then obtain i where i: "i < length order" and e: "emissions st ! i = e"
      using len by (auto simp: in_set_conv_nth)
    have "kind (emissions st ! i) = kind_of (vertex (emissions st ! i))"
      using rows [rule_format, OF i] by (elim exE conjE) simp
    then show "kind e = kind_of (vertex e)" using e by simp
  qed
  have wfv: "\<forall>e \<in> edge_rel graph. snd e \<in> set order"
    using assms(1) so by (auto simp: well_formed_def edge_rel_def)
  have edges: "\<forall>e \<in> edge_rel graph. fst e \<in> set (takeWhile (\<lambda>x. x \<noteq> snd e) order)"
    using pf wfv by (simp add: providers_first_def)
  have dv: "distinct (keys (nodes graph))" using assms(1) by (simp add: well_formed_def)
  have counts: "\<forall>k. length (filter (\<lambda>e. kind e = k) (emissions st)) =
             length (filter (\<lambda>n. kind_of n = k) (keys (nodes graph)))"
  proof
    fix k
    have "length (filter (\<lambda>e. kind e = k) (emissions st)) =
          length (filter (\<lambda>n. kind_of n = k) order)"
      using filter_kinds [OF kinds, of k] vo by simp
    also have "\<dots> = length (filter (\<lambda>n. kind_of n = k) (keys (nodes graph)))"
      by (rule filter_same_set [OF d dv so])
    finally show "length (filter (\<lambda>e. kind e = k) (emissions st)) =
             length (filter (\<lambda>n. kind_of n = k) (keys (nodes graph)))" .
  qed
  have files: "python_file st = concat (map (preamble_of s graph) order)"
    "requirements st = concat (map (packages_of s graph) order)"
    using emit_nodes_files [OF run] by (simp_all add: initial_state_def)
  note fin = compile_graph_after_loop [OF loop, of fmt, unfolded join_lines_text]
  show ?thesis
    by (rule exI [of _ order], rule exI [of _ st])
       (intro conjI dag ts d so edges loop len rows counts script files fin)
qed

lemma scenario_graph_acyclic: "well_formed scenario_graph \<and> \<not> contains_cycle scenario_graph"
proof -
  have wf: "well_formed scenario_graph"
    by (simp add: scenario_graph_def well_formed_def keys_def)
  have "topological_sort scenario_graph = Inr [''request'', ''double'', ''response'']"
    by code_simp
  then show ?thesis using topological_sort_correct [OF wf] wf by auto
qed

text \<open>
  The scenario: the header, the call site of the interior vertex and the return
  statement, in this order, and the start node carries the derived name afterwards.
\<close>

theorem compile_graph_emissions_witness:
  "well_formed scenario_graph \<and> \<not> contains_cycle scenario_graph
   \<and> topological_sort scenario_graph = Inr [''request'', ''double'', ''response'']
   \<and> fst (compile_loop plain_methods example_store scenario_graph scenario_path) =
       Inr scenario_state
   \<and> Node.name (snd (compile_loop plain_methods example_store scenario_graph scenario_path) 0) =
       ''double_it_request''
   \<and> map vertex (emissions scenario_state) = [''request'', ''double'', ''response'']
   \<and> map kind (emissions scenario_state) = [Header, CallSite, Return]
   \<and> map text_emitted (emissions scenario_state) =
       [''def double_it_request():'' @ [CHR 0x0A], ''    double()'' @ [CHR 0x0A],
        ''    return'' @ [CHR 0x0A]]
   \<and> length (filter (\<lambda>e. kind e = Header) (emissions scenario_state)) = 1
   \<and> fst (compile_graph plain_methods plain_formatters example_store scenario_graph scenario_path) =
       Inr \<lparr>FunctionData.function_name = ''double_it_request'', code = scenario_source,
            requirements_txt = ''requests==2.0'', endpoint_name = ''/double''\<rparr>"
proof -
  let ?f = "derive_function_name (ExecutionPath.name scenario_path)"
  obtain order st where o: "topological_sort scenario_graph = Inr order"
    and st: "compile_loop plain_methods example_store scenario_graph scenario_path =
               (Inr st, renamed example_store ?f (header_refs scenario_graph order))"
    and counts: "\<forall>k. length (filter (\<lambda>e. kind e = k) (emissions st)) =
             length (filter (\<lambda>n. kind_of n = k) (keys (nodes scenario_graph)))"
    using compile_graph_emissions
      [OF conjunct1 [OF scenario_graph_acyclic] conjunct2 [OF scenario_graph_acyclic],
       of plain_methods example_store scenario_path plain_formatters]
    by (elim exE conjE) (rule that)
  have ts: "topological_sort scenario_graph = Inr [''request'', ''double'', ''response'']"
    by code_simp
  have order: "order = [''request'', ''double'', ''response'']" using o ts by simp
  have st_eq: "st = scenario_state" using st scenario_loop by simp
  have f: "?f = ''double_it_request''" by code_simp
  have "0 \<in> header_refs scenario_graph order"
    unfolding order header_refs_def
    by (simp add: scenario_graph_def kind_of_def contains_def startswith_def)
  then have stored: "Node.name (snd (compile_loop plain_methods example_store scenario_graph scenario_path) 0) =
       ''double_it_request''"
    unfolding st using f by (simp add: renamed_def)
  have "length (filter (\<lambda>n. kind_of n = Header) (keys (nodes scenario_graph))) = 1"
    by code_simp
  then have one: "length (filter (\<lambda>e. kind e = Header) (emissions scenario_state)) = 1"
    using counts st_eq by simp
  have ks: "map vertex (emissions scenario_state) = [''request'', ''double'', ''response'']
        \<and> map kind (emissions scenario_state) = [Header, CallSite, Return]
        \<and> map text_emitted (emissions scenario_state) =
           [''def double_it_request():'' @ [CHR 0x0A], ''    double()'' @ [CHR 0x0A],
            ''    return'' @ [CHR 0x0A]]"
    by (simp add: scenario_state_def)
  show ?thesis
    using scenario_graph_acyclic ts scenario_loop stored ks one scenario_compiled
    by (intro conjI) simp_all
qed

lemma role_graph_built:
  "add_node example_store
     (snd (add_node example_store
             (snd (add_node example_store \<lparr>nodes = [], edges = []\<rparr> ''start'' 0))
             ''double'' 1))
     ''end'' 2 = (Inr True, role_graph)"
  by (simp add: add_node_def graph_add_node_def graph_add_edge_def input_params_needed_def
      param_key_def example_store_def request_node_def double_node_def response_node_def
      role_graph_def Let_def)

text \<open>
  The scenario with its start vertex named \<open>start\<close> and its end vertex named \<open>end\<close>,
  as three calls of \<open>add_node\<close> build it: the acyclicity check passes and
  \<open>compile_graph\<close> returns, with three call sites, no header and no return statement.
\<close>

theorem compile_graph_roles_counterexample:
  "add_node example_store
     (snd (add_node example_store
             (snd (add_node example_store \<lparr>nodes = [], edges = []\<rparr> ''start'' 0))
             ''double'' 1))
     ''end'' 2 = (Inr True, role_graph)
   \<and> is_directed_acyclic_graph role_graph = Inr True
   \<and> fst (compile_loop plain_methods example_store role_graph scenario_path) = Inr role_state
   \<and> map kind (emissions role_state) = [CallSite, CallSite, CallSite]
   \<and> fst (compile_graph plain_methods plain_formatters example_store role_graph scenario_path) =
       Inr \<lparr>FunctionData.function_name = ''double_it_request'', code = role_source,
            requirements_txt = ''requests==2.0'', endpoint_name = ''/double''\<rparr>"
proof -
  have 1: "is_directed_acyclic_graph role_graph = Inr True" by code_simp
  have 2: "fst (compile_loop plain_methods example_store role_graph scenario_path) = Inr role_state"
    by code_simp
  have 3: "map kind (emissions role_state) = [CallSite, CallSite, CallSite]"
    by (simp add: role_state_def)
  have 4: "fst (compile_graph plain_methods plain_formatters example_store role_graph scenario_path) =
       Inr \<lparr>FunctionData.function_name = ''double_it_request'', code = role_source,
            requirements_txt = ''requests==2.0'', endpoint_name = ''/double''\<rparr>"
    by code_simp
  show ?thesis using role_graph_built 1 2 3 4 by (intro conjI)
qed

section \<open>Import refactoring\<close>

text \<open>
  \<open>refactor_imports\<close> by itself puts a blank separator in front of the rest of the file
  each time it runs; whether the whole normalization is idempotent is decided by what
  \<open>isort\<close> and \<open>black\<close> do with its result.
\<close>

lemma refactor_imports_twice:
  "refactor_imports ''x = 1'' = Inr ([CHR 0x0A, CHR 0x0A] @ ''x = 1'')
   \<and> refactor_imports ([CHR 0x0A, CHR 0x0A] @ ''x = 1'') =
       Inr ([CHR 0x0A, CHR 0x0A, CHR 0x0A, CHR 0x0A] @ ''x = 1'')"
  by code_simp

text \<open>
  An import line that carries a comment in which the word \<open>import\<close> comes again: the
  unpacking of \<open>line.split(" import ")\<close> into two names raises.
\<close>

lemma refactor_imports_commented_import:
  "refactor_imports ''from math import sqrt  # import the square root'' = Inl UnpackError
   \<and> fst (compile_graph plain_methods plain_formatters example_store commented_import_graph
            scenario_path) = Inl UnpackError"
  by code_simp

section \<open>The graphs that add\_node builds\<close>

text \<open>
  The empty graph is well formed and \<open>add_node\<close> keeps a graph well formed, whether it
  succeeds or raises: the graphs of the builder are among the graphs the theorems on
  \<open>compile_graph\<close> speak about.
\<close>

lemma dict_set_values: "snd ` set (dict_set d k v) \<subseteq> insert v (snd ` set d)"
  by (induction d k v rule: dict_set.induct) auto

lemma scan_outputs_values:
  "snd ` set (scan_outputs needed n providers outs) \<subseteq> insert n (snd ` set providers)"
proof (induction needed n providers outs rule: scan_outputs.induct)
  case (1 needed n providers)
  then show ?case by auto
next
  case (2 needed n providers output_param rest)
  show ?case
  proof (cases "param_key output_param \<in> set needed")
    case True
    then have "snd ` set (scan_outputs needed n providers (output_param # rest)) \<subseteq>
               insert n (snd ` set (dict_set providers (param_key output_param) n))"
      using 2 by simp
    also have "\<dots> \<subseteq> insert n (snd ` set providers)"
      using dict_set_values [of providers "param_key output_param" n] by auto
    finally show ?thesis .
  next
    case False
    then show ?thesis using 2 by simp
  qed
qed

lemma scan_nodes_values:
  "snd ` set (scan_nodes s needed providers ns) \<subseteq> snd ` set providers \<union> set (keys ns)"
proof (induction s needed providers ns rule: scan_nodes.induct)
  case (1 s needed providers)
  then show ?case by simp
next
  case (2 s needed providers n existing_node rest)
  let ?p = "case output_params (s existing_node) of
              None \<Rightarrow> providers | Some outs \<Rightarrow> scan_outputs needed n providers outs"
  have step: "snd ` set ?p \<subseteq> insert n (snd ` set providers)"
    using scan_outputs_values [of needed n providers]
    by (cases "output_params (s existing_node)") auto
  have "snd ` set (scan_nodes s needed providers ((n, existing_node) # rest)) \<subseteq>
        snd ` set ?p \<union> set (keys rest)"
    using 2 by simp
  also have "\<dots> \<subseteq> snd ` set providers \<union> set (keys ((n, existing_node) # rest))"
    using step by (auto simp: keys_def)
  finally show ?case .
qed

lemma well_formed_add_vertex:
  "well_formed graph \<Longrightarrow> well_formed (graph_add_node graph n nd)"
  using distinct_dict_set [of "nodes graph" n nd] keys_dict_set [of "nodes graph" n nd]
  by (auto simp: well_formed_def graph_add_node_def)

lemma well_formed_add_edge:
  assumes "well_formed graph" "u \<in> set (keys (nodes graph))" "v \<in> set (keys (nodes graph))"
  shows "well_formed (graph_add_edge graph u v c)"
  using assms distinct_dict_set [of "edges graph" "(u, v)" c]
    keys_dict_set [of "edges graph" "(u, v)" c]
  by (auto simp: well_formed_def graph_add_edge_def)

lemma well_formed_connect:
  assumes "well_formed graph" "n \<in> set (keys (nodes graph))"
    "snd ` set providers \<subseteq> set (keys (nodes graph))"
  shows "well_formed (connect graph n providers)"
  using assms
proof (induction graph n providers rule: connect.induct)
  case (1 graph node_name)
  then show ?case by simp
next
  case (2 graph node_name key provider_node rest)
  have p: "provider_node \<in> set (keys (nodes graph))" using 2(4) by auto
  have same: "nodes (graph_add_edge graph provider_node node_name c) = nodes graph" for c
    by (simp add: graph_add_edge_def)
  have r: "snd ` set rest \<subseteq> set (keys (nodes graph))" using 2(4) by auto
  show ?case
    using 2(1) [OF well_formed_add_edge [OF 2(2) p 2(3)]] 2(3) r by (simp add: same)
qed

lemma add_node_well_formed:
  assumes "well_formed graph"
  shows "well_formed (snd (add_node s graph node_name node))"
proof -
  let ?g = "graph_add_node graph node_name node"
  let ?p = "scan_nodes s (input_params_needed (s node)) [] (nodes graph)"
  have wf1: "well_formed ?g" using assms by (rule well_formed_add_vertex)
  have ks: "set (keys (nodes ?g)) = insert node_name (set (keys (nodes graph)))"
    by (simp add: graph_add_node_def keys_dict_set)
  have "snd ` set ?p \<subseteq> set (keys (nodes graph))"
    using scan_nodes_values [of s "input_params_needed (s node)" "[]" "nodes graph"] by simp
  then have "well_formed (connect ?g node_name ?p)"
    using ks by (intro well_formed_connect [OF wf1]) auto
  then show ?thesis using assms wf1 by (simp add: add_node_def Let_def)
qed

lemma empty_graph_well_formed: "well_formed \<lparr>nodes = [], edges = []\<rparr>"
  by (simp add: well_formed_def keys_def)

end
